theory Spec2Isabelle
  imports Complex_Main "HOL-Library.Word" "HOL-Library.Log_Nat"
begin

unbundle bit_operations_syntax

section \<open>Machine types\<close>

text \<open>
  The embedding fixes the usual LP64 little-endian platform of the source:
  \<open>char\<close> is a signed byte, \<open>int\<close> is a 32-bit word read in two's
  complement (\<open>sint\<close>, \<open>scast\<close>), \<open>uint32_t\<close> 32 bits,
  \<open>size_t\<close> and \<open>uint64_t\<close> 64 bits, \<open>double\<close> is IEEE 754 binary64 with
  round-to-nearest-even.  A \<open>std::string\<close> is the list of its bytes; its
  \<open>size()\<close> is a \<open>size_t\<close>.  Memory exhaustion (\<open>bad_alloc\<close>,
  \<open>length_error\<close>) is not modelled.  Undefined behaviour of the source (a read or
  write outside a buffer, a division by zero) is an error value.
\<close>

type_synonym byte = "8 word"
type_synonym uint32_t = "32 word"
type_synonym uint64_t = "64 word"
type_synonym size_t = "64 word"
type_synonym c_int = "32 word"
type_synonym std_string = "byte list"

datatype error = OutOfBounds | DivisionByZero | UnrepresentableConversion

definition string_size :: "std_string \<Rightarrow> size_t" where
  "string_size s = of_nat (length s)"

text \<open>\<open>std::string::resize(n, c)\<close>: truncates to \<open>n\<close> bytes or pads with \<open>c\<close>.\<close>

definition resize :: "std_string \<Rightarrow> size_t \<Rightarrow> byte \<Rightarrow> std_string" where
  "resize s n c = take (unat n) s @ replicate (unat n - length s) c"

section \<open>Hash function\<close>

text \<open>\<open>DecodeFixed32\<close>: a \<open>memcpy\<close> of four bytes into a \<open>uint32_t\<close>, little-endian.\<close>

definition DecodeFixed32 :: "byte \<Rightarrow> byte \<Rightarrow> byte \<Rightarrow> byte \<Rightarrow> uint32_t" where
  "DecodeFixed32 b0 b1 b2 b3 =
     ucast b0 OR push_bit 8 (ucast b1) OR push_bit 16 (ucast b2) OR push_bit 24 (ucast b3)"

definition Hash_m :: uint32_t where
  "Hash_m = 0xc6a4a793"

definition Hash_r :: nat where
  "Hash_r = 24"

text \<open>
  The body of \<open>Hash\<close> after the initialisation of \<open>h\<close>: the first equation is one
  round of the \<open>while (data + 4 <= limit)\<close> loop, the others are the
  \<open>switch (limit - data)\<close> with its fall-through cases 3, 2, 1 and the case of no
  remaining byte.
\<close>

fun Hash_loop :: "byte list \<Rightarrow> uint32_t \<Rightarrow> uint32_t" where
  "Hash_loop (b0 # b1 # b2 # b3 # data) h =
     (let w = DecodeFixed32 b0 b1 b2 b3;
          h = h + w;
          h = h * Hash_m;
          h = h XOR drop_bit 16 h
      in Hash_loop data h)"
| "Hash_loop [b0, b1, b2] h =
     (let h = h + push_bit 16 (ucast b2);
          h = h + push_bit 8 (ucast b1);
          h = h + ucast b0;
          h = h * Hash_m;
          h = h XOR drop_bit Hash_r h
      in h)"
| "Hash_loop [b0, b1] h =
     (let h = h + push_bit 8 (ucast b1);
          h = h + ucast b0;
          h = h * Hash_m;
          h = h XOR drop_bit Hash_r h
      in h)"
| "Hash_loop [b0] h =
     (let h = h + ucast b0;
          h = h * Hash_m;
          h = h XOR drop_bit Hash_r h
      in h)"
| "Hash_loop [] h = h"

text \<open>
  \<open>Hash(data, n, seed)\<close> with \<open>n\<close> the number of bytes of \<open>data\<close>.  The product
  \<open>n * m\<close> is computed in \<open>size_t\<close> and truncated to 32 bits by the initialisation.
\<close>

definition Hash :: "byte list \<Rightarrow> uint32_t \<Rightarrow> uint32_t" where
  "Hash data seed =
     (let n = string_size data;
          h = ucast ((ucast seed :: size_t) XOR (n * ucast Hash_m))
      in Hash_loop data h)"

definition BloomHash_string :: "std_string \<Rightarrow> uint32_t" where
  "BloomHash_string key = Hash key 0xbc9f1d34"

text \<open>The eight bytes of a \<open>uint64_t\<close> in memory order (little-endian).\<close>

definition uint64_bytes :: "uint64_t \<Rightarrow> byte list" where
  "uint64_bytes key = map (\<lambda>i. ucast (drop_bit (8 * i) key)) [0..<8]"

definition BloomHash_uint64 :: "uint64_t \<Rightarrow> uint32_t" where
  "BloomHash_uint64 key = Hash (uint64_bytes key) 0xbc9f1d34"

section \<open>The filter policy\<close>

text \<open>
  The fields \<open>bits_per_key_\<close> and \<open>k_\<close> of the class, written \<open>bits_per_key_m\<close>
  and \<open>k_m\<close> since an identifier cannot end with an underscore here.
\<close>

record BloomFilter =
  bits_per_key_m :: size_t
  k_m :: size_t

text \<open>
  The literal \<open>0.69\<close> is the double \<open>0x1.6147ae147ae14p-1\<close>, that is
  \<open>6214967485771284 / 2^53\<close>.  Doubles of this computation are represented by
  their value in units of \<open>2^-53\<close>.
\<close>

definition double_0_69 :: nat where
  "double_0_69 = 6214967485771284"

text \<open>
  Rounding of a non-negative exact result to a 53-bit significand, ties to even.
\<close>

definition round_to_double :: "nat \<Rightarrow> nat" where
  "round_to_double x =
     (let b = floorlog 2 x in
      if b \<le> 53 then x
      else
        let s = b - 53;
            q = x div 2 ^ s;
            r = x mod 2 ^ s;
            half = 2 ^ (s - 1);
            q = (if half < r \<or> (r = half \<and> odd q) then q + 1 else q)
        in q * 2 ^ s)"

text \<open>
  \<open>bits_per_key * 0.69\<close>: the \<open>int\<close> converts exactly to a double, the product is
  rounded once; the result is in units of \<open>2^-53\<close>.
\<close>

definition mul_0_69 :: "c_int \<Rightarrow> int" where
  "mul_0_69 bits_per_key =
     sgn (sint bits_per_key) * int (round_to_double (nat \<bar>sint bits_per_key\<bar> * double_0_69))"

text \<open>
  \<open>static_cast<size_t>\<close> of a double (in units of \<open>2^-53\<close>): truncation towards
  zero.  The language defines the result when the truncated value is a
  \<open>size_t\<close>.  For a negative truncated value the x86-64 code of the source
  converts through the signed 64-bit integer and returns normally, with the
  value modulo \<open>2^64\<close> (\<open>BloomFilter(-2)\<close> gets \<open>k_ = 2^64 - 1\<close> here, clamped to
  30); the model follows it.  Outside both ranges the conversion is an error
  value; no \<open>int\<close> reaches it.
\<close>

definition double_to_size_t :: "int \<Rightarrow> error + size_t" where
  "double_to_size_t x =
     (let t = sgn x * (\<bar>x\<bar> div 2 ^ 53) in
      if - (2 ^ 63) \<le> t \<and> t < 2 ^ 64 then Inr (of_int t)
      else Inl UnrepresentableConversion)"

text \<open>The constructor \<open>BloomFilter(int bits_per_key)\<close>.\<close>

definition BloomFilter_init :: "c_int \<Rightarrow> error + BloomFilter" where
  "BloomFilter_init bits_per_key =
     (case double_to_size_t (mul_0_69 bits_per_key) of
        Inl e \<Rightarrow> Inl e
      | Inr k \<Rightarrow>
          let k = (if k < 1 then 1 else k);
              k = (if k > 30 then 30 else k)
          in Inr \<lparr>bits_per_key_m = scast bits_per_key, k_m = k\<rparr>)"

section \<open>Construction\<close>

text \<open>\<open>h % bits\<close>: computed in \<open>size_t\<close> and stored in a \<open>uint32_t\<close>.\<close>

definition probe_bitpos :: "uint32_t \<Rightarrow> size_t \<Rightarrow> uint32_t" where
  "probe_bitpos h bits = ucast ((ucast h :: size_t) mod bits)"

text \<open>\<open>(h >> 17) | (h << 15)\<close>\<close>

definition rotate_right_17 :: "uint32_t \<Rightarrow> uint32_t" where
  "rotate_right_17 h = drop_bit 17 h OR push_bit 15 h"

text \<open>
  The inner loop \<open>for (size_t j = 0; j < k_; j++)\<close> of \<open>CreateFilter\<close>.  The pointer
  \<open>array\<close> is \<open>dst\<close> at offset \<open>init_size\<close>, so \<open>array[bitpos/8]\<close> is the byte
  \<open>init_size + bitpos/8\<close> of \<open>dst\<close>.
\<close>

function CreateFilter_probes ::
  "size_t \<Rightarrow> size_t \<Rightarrow> size_t \<Rightarrow> uint32_t \<Rightarrow> uint32_t \<Rightarrow> nat \<Rightarrow> std_string
    \<Rightarrow> error + std_string" where
  "CreateFilter_probes k bits init_size h delta j dst =
     (if j < unat k then
        if bits = 0 then Inl DivisionByZero
        else
          let bitpos = probe_bitpos h bits;
              idx = unat init_size + unat (bitpos div 8)
          in if idx < length dst
             then CreateFilter_probes k bits init_size (h + delta) delta (j + 1)
                    (dst[idx := (dst ! idx) OR push_bit (unat (bitpos mod 8)) 1])
             else Inl OutOfBounds
      else Inr dst)"
  by pat_completeness auto
termination
  by (relation "measure (\<lambda>(k, bits, init_size, h, delta, j, dst). unat k - j)") auto

declare CreateFilter_probes.simps [simp del]

text \<open>The outer loop \<open>for (int i = 0; i < n; i++)\<close> of \<open>CreateFilter\<close>.\<close>

function CreateFilter_keys ::
  "('key \<Rightarrow> uint32_t) \<Rightarrow> size_t \<Rightarrow> size_t \<Rightarrow> size_t \<Rightarrow> 'key list \<Rightarrow> int \<Rightarrow> int
    \<Rightarrow> std_string \<Rightarrow> error + std_string" where
  "CreateFilter_keys BloomHash k bits init_size keys n i dst =
     (if i < n then
        if 0 \<le> i \<and> nat i < length keys then
          let h = BloomHash (keys ! nat i);
              delta = rotate_right_17 h
          in case CreateFilter_probes k bits init_size h delta 0 dst of
               Inl e \<Rightarrow> Inl e
             | Inr dst' \<Rightarrow> CreateFilter_keys BloomHash k bits init_size keys n (i + 1) dst'
        else Inl OutOfBounds
      else Inr dst)"
  by pat_completeness auto
termination
  by (relation "measure (\<lambda>(BloomHash, k, bits, init_size, keys, n, i, dst). nat (n - i))") auto

declare CreateFilter_keys.simps [simp del]

text \<open>
  \<open>CreateFilter(keys, n, dst)\<close>.  The two overloads of the source have the same
  body and differ in the key type, which selects the overload of \<open>BloomHash\<close>.
\<close>

definition CreateFilter ::
  "('key \<Rightarrow> uint32_t) \<Rightarrow> BloomFilter \<Rightarrow> 'key list \<Rightarrow> c_int \<Rightarrow> std_string
    \<Rightarrow> error + std_string" where
  "CreateFilter BloomHash this keys n dst =
     (let bits = scast n * bits_per_key_m this;
          bits = (if bits < 64 then 64 else bits);
          bytes = (bits + 7) div 8;
          bits = bytes * 8;
          init_size = string_size dst;
          dst = resize dst (init_size + bytes) 0;
          dst = dst @ [ucast (k_m this)]
      in CreateFilter_keys BloomHash (k_m this) bits init_size keys (sint n) 0 dst)"

definition CreateFilter_string ::
  "BloomFilter \<Rightarrow> std_string list \<Rightarrow> c_int \<Rightarrow> std_string \<Rightarrow> error + std_string" where
  "CreateFilter_string = CreateFilter BloomHash_string"

definition CreateFilter_uint64 ::
  "BloomFilter \<Rightarrow> uint64_t list \<Rightarrow> c_int \<Rightarrow> std_string \<Rightarrow> error + std_string" where
  "CreateFilter_uint64 = CreateFilter BloomHash_uint64"

section \<open>Query\<close>

text \<open>
  The probe loop of \<open>KeyMayMatch\<close>.  \<open>array\<close> is the result of \<open>c_str()\<close>: the bytes
  of the filter followed by a terminating zero byte.
\<close>

function KeyMayMatch_probes ::
  "byte list \<Rightarrow> size_t \<Rightarrow> size_t \<Rightarrow> uint32_t \<Rightarrow> uint32_t \<Rightarrow> nat \<Rightarrow> error + bool" where
  "KeyMayMatch_probes array bits k h delta j =
     (if j < unat k then
        if bits = 0 then Inl DivisionByZero
        else
          let bitpos = probe_bitpos h bits;
              idx = unat (bitpos div 8)
          in if idx < length array
             then if (array ! idx) AND push_bit (unat (bitpos mod 8)) 1 = 0 then Inr False
                  else KeyMayMatch_probes array bits k (h + delta) delta (j + 1)
             else Inl OutOfBounds
      else Inr True)"
  by pat_completeness auto
termination
  by (relation "measure (\<lambda>(array, bits, k, h, delta, j). unat k - j)") auto

declare KeyMayMatch_probes.simps [simp del]

text \<open>
  \<open>KeyMayMatch(key, bloom_filter)\<close>.  The \<open>char\<close> \<open>array[len-1]\<close> is sign-extended
  to the \<open>size_t\<close> \<open>k\<close>.  The two overloads have the same body.
\<close>

definition KeyMayMatch ::
  "('key \<Rightarrow> uint32_t) \<Rightarrow> BloomFilter \<Rightarrow> 'key \<Rightarrow> std_string \<Rightarrow> error + bool" where
  "KeyMayMatch BloomHash this key bloom_filter =
     (let len = string_size bloom_filter in
      if len < 2 then Inr False
      else
        let array = bloom_filter @ [0];
            bits = (len - 1) * 8
        in if unat (len - 1) < length array then
             let k = (scast (array ! unat (len - 1)) :: size_t) in
             if k > 30 then Inr True
             else
               let h = BloomHash key;
                   delta = rotate_right_17 h
               in KeyMayMatch_probes array bits k h delta 0
           else Inl OutOfBounds)"

definition KeyMayMatch_string :: "BloomFilter \<Rightarrow> std_string \<Rightarrow> std_string \<Rightarrow> error + bool" where
  "KeyMayMatch_string = KeyMayMatch BloomHash_string"

definition KeyMayMatch_uint64 :: "BloomFilter \<Rightarrow> uint64_t \<Rightarrow> std_string \<Rightarrow> error + bool" where
  "KeyMayMatch_uint64 = KeyMayMatch BloomHash_uint64"

section \<open>Notions of the specification\<close>

text \<open>Bit \<open>pos\<close> of a bit array: bit \<open>pos mod 8\<close> of byte \<open>pos div 8\<close>.\<close>

definition bit_at :: "byte list \<Rightarrow> nat \<Rightarrow> bool" where
  "bit_at array pos = bit (array ! (pos div 8)) (pos mod 8)"

text \<open>
  The position of probe \<open>j\<close> of a key with hash \<open>h0\<close> in an array of \<open>total_bits\<close>
  bits: \<open>((h0 + j * delta) mod 2^32) mod total_bits\<close> with
  \<open>delta = rotate_right(h0, 17)\<close>.
\<close>

definition probe_position :: "uint32_t \<Rightarrow> nat \<Rightarrow> nat \<Rightarrow> nat" where
  "probe_position h0 j total_bits =
     ((unat h0 + j * unat (word_rotr 17 h0)) mod 2 ^ 32) mod total_bits"

text \<open>\<open>ceil(max(n * bits_per_key, 64) / 8)\<close>, the size of the bit array in bytes.\<close>

definition filter_bytes :: "nat \<Rightarrow> nat \<Rightarrow> nat" where
  "filter_bytes n bits_per_key = (max (n * bits_per_key) 64 + 7) div 8"

text \<open>
  The number of probes as the specification words it: \<open>floor(bits_per_key * ln 2)\<close>
  clamped to \<open>[1, 30]\<close>.
\<close>

definition spec_num_probes :: "int \<Rightarrow> int" where
  "spec_num_probes bits_per_key = max 1 (min 30 \<lfloor>real_of_int bits_per_key * ln 2\<rfloor>)"

text \<open>
  The number of probes with the constant of the source: \<open>floor(bits_per_key * 0.69)\<close>
  clamped to \<open>[1, 30]\<close>.
\<close>

definition num_probes_069 :: "int \<Rightarrow> int" where
  "num_probes_069 bits_per_key = max 1 (min 30 (bits_per_key * 69 div 100))"

section \<open>Casts between the byte and word types\<close>

lemma mod_256_shift:
  fixes u :: int
  assumes "0 \<le> u" "u < 256"
  shows "(u + 128) mod 256 - 128 = (if u < 128 then u else u - 256)"
proof (cases "u < 128")
  case True
  then have "(u + 128) mod 256 = u + 128"
    using assms by (intro mod_pos_pos_trivial) simp_all
  with True show ?thesis by simp
next
  case False
  have "u + 128 = u - 128 + 256" by linarith
  then have "(u + 128) mod 256 = (u - 128 + 256) mod 256" by (rule arg_cong)
  also have "\<dots> = (u - 128) mod 256" by (simp only: mod_add_self2)
  also have "\<dots> = u - 128"
    using assms False by (intro mod_pos_pos_trivial) simp_all
  finally show ?thesis using False by simp
qed

lemma uint_byte_range: "0 \<le> uint (c :: 8 word) \<and> uint c < 256"
  using uint_bounded [of c] by simp

lemma sint_byte:
  "sint (c :: 8 word) = (if uint c < 128 then uint c else uint c - 256)"
proof -
  have r: "0 \<le> uint c" "uint c < 256"
    using uint_byte_range [of c] by simp_all
  have "sint c = take_bit 8 (uint c + 128) - 128"
    by (simp add: sint_uint signed_take_bit_eq_take_bit_shift)
  also have "\<dots> = (uint c + 128) mod 256 - 128"
    by (simp add: take_bit_eq_mod)
  also have "\<dots> = (if uint c < 128 then uint c else uint c - 256)"
    using r by (rule mod_256_shift)
  finally show ?thesis .
qed

lemma scast_byte_small:
  assumes "uint (c :: 8 word) < 128"
  shows "(scast c :: 64 word) = ucast c"
proof -
  have "(scast c :: 64 word) = word_of_int (sint c)"
    by (rule scast_eq)
  also have "sint c = uint c"
    using assms by (simp add: sint_byte)
  also have "word_of_int (uint c) = (ucast c :: 64 word)"
    by (rule ucast_eq [symmetric])
  finally show ?thesis .
qed

lemma uint_ucast_byte: "uint (ucast (c :: 8 word) :: 64 word) = uint c"
proof -
  have "uint c < 2 ^ 64" using uint_byte_range [of c] by simp
  then show ?thesis
    by (simp add: unsigned_ucast_eq take_bit_int_eq_self)
qed

lemma uint_scast_byte_neg:
  assumes "128 \<le> uint (c :: 8 word)"
  shows "uint (scast c :: 64 word) = uint c - 256 + 2 ^ 64"
proof -
  have r: "uint c < 256" using uint_byte_range [of c] by simp
  have "uint (scast c :: 64 word) = sint c mod 2 ^ 64"
    by (simp only: scast_eq uint_word_of_int) simp
  also have "sint c = uint c - 256" using assms by (simp add: sint_byte)
  also have "(uint c - 256) mod 2 ^ 64 = (uint c - 256 + 2 ^ 64) mod 2 ^ 64"
    by (simp only: mod_add_self2)
  also have "\<dots> = uint c - 256 + 2 ^ 64"
    using assms r by (intro mod_pos_pos_trivial) simp_all
  finally show ?thesis .
qed

lemma scast_byte_gt_30:
  assumes "30 < uint (c :: 8 word)"
  shows "(30 :: 64 word) < scast c"
proof (cases "uint c < 128")
  case True
  then show ?thesis
    using assms by (simp add: scast_byte_small word_less_def uint_ucast_byte)
next
  case False
  then have "uint (scast c :: 64 word) = uint c - 256 + 2 ^ 64"
    by (simp add: uint_scast_byte_neg)
  then show ?thesis
    using False by (simp add: word_less_def)
qed

lemma scast_byte_le_30:
  assumes "uint (c :: 8 word) \<le> 30"
  shows "\<not> (30 :: 64 word) < scast c" and "unat (scast c :: 64 word) = unat c"
proof -
  have s: "(scast c :: 64 word) = ucast c" using assms by (simp add: scast_byte_small)
  show "\<not> (30 :: 64 word) < scast c"
    using assms by (simp add: s word_less_def uint_ucast_byte)
  have "int (unat (scast c :: 64 word)) = int (unat c)"
    using uint_ucast_byte [of c] by (simp add: s)
  then show "unat (scast c :: 64 word) = unat c" by (simp only: of_nat_eq_iff)
qed

lemma unat_ucast_k:
  assumes "(k :: 64 word) \<le> 30"
  shows "unat (ucast k :: 8 word) = unat k"
proof -
  have "unat k \<le> 30" using assms by (simp add: word_le_nat_alt)
  then have "unat k < 2 ^ 8" by simp
  then show ?thesis by (simp add: unsigned_ucast_eq take_bit_nat_eq_self)
qed

section \<open>Probe positions\<close>

lemma unat_probe_bitpos:
  "unat (probe_bitpos h bits) = unat h mod unat bits"
proof -
  have lt: "unat h < 2 ^ 32" using unsigned_less [of h, where 'a=nat] by simp
  have a: "unat (ucast h :: 64 word) = unat h"
    using lt by (simp add: unsigned_ucast_eq take_bit_nat_eq_self)
  have c: "unat ((ucast h :: 64 word) mod bits) = unat h mod unat bits"
    by (simp only: unat_mod a)
  have "unat h mod unat bits \<le> unat h" by simp
  then have b: "unat h mod unat bits < 2 ^ 32" using lt by linarith
  have "unat (ucast ((ucast h :: 64 word) mod bits) :: 32 word)
          = take_bit 32 (unat ((ucast h :: 64 word) mod bits))"
    by (simp only: unsigned_ucast_eq) simp
  also have "\<dots> = unat h mod unat bits"
    unfolding c using b by (simp add: take_bit_nat_eq_self)
  finally show ?thesis
    unfolding probe_bitpos_def .
qed

lemma unat_div8: "unat ((x :: 32 word) div 8) = unat x div 8"
  by (simp add: unat_div)

lemma unat_mod8: "unat ((x :: 32 word) mod 8) = unat x mod 8"
  by (simp add: unat_mod)

lemma bit_set_byte:
  "m < 8 \<Longrightarrow> bit ((b :: 8 word) OR push_bit m 1) i \<longleftrightarrow> bit b i \<or> i = m"
  by (auto simp add: bit_simps)

lemma bit_test_byte:
  "m < 8 \<Longrightarrow> ((b :: 8 word) AND push_bit m 1 = 0) \<longleftrightarrow> \<not> bit b m"
  using bit_eq_iff [of "b AND push_bit m 1" "0 :: 8 word"] by (auto simp add: bit_simps)

lemma bit_set_byte_pow:
  "m < 8 \<Longrightarrow> bit ((b :: 8 word) OR 2 ^ m) i \<longleftrightarrow> bit b i \<or> i = m"
  using bit_set_byte [of m b i] by simp

lemma bit_test_byte_pow:
  "m < 8 \<Longrightarrow> ((b :: 8 word) AND 2 ^ m = 0) \<longleftrightarrow> \<not> bit b m"
  using bit_test_byte [of m b] by simp

section \<open>Effect of the construction loops\<close>

lemma nth_middle:
  "i < length A \<Longrightarrow> (pre @ A @ suf) ! (length pre + i) = A ! i"
  by (simp add: nth_append)

lemma update_middle:
  "i < length A \<Longrightarrow> (pre @ A @ suf)[length pre + i := v] = pre @ A[i := v] @ suf"
  by (simp add: list_update_append)

lemma bit_at_update:
  assumes "p < 8 * length A" "pos < 8 * length A"
  shows "bit_at (A[p div 8 := A ! (p div 8) OR push_bit (p mod 8) 1]) pos
           \<longleftrightarrow> bit_at A pos \<or> pos = p"
proof (cases "pos div 8 = p div 8")
  case True
  have "pos = p \<longleftrightarrow> pos mod 8 = p mod 8"
    using True by (metis div_mult_mod_eq)
  moreover have "p div 8 < length A" using assms by simp
  ultimately show ?thesis
    using True by (simp add: bit_at_def bit_set_byte_pow)
next
  case False
  then have "pos \<noteq> p" by auto
  with False show ?thesis by (simp add: bit_at_def)
qed

lemma CreateFilter_probes_effect:
  assumes "unat init_size = length pre" "unat bits = 8 * length A" "0 < length A"
  shows "\<exists>A'. CreateFilter_probes k bits init_size h delta j (pre @ A @ suf) = Inr (pre @ A' @ suf)
           \<and> length A' = length A
           \<and> (\<forall>pos < 8 * length A. bit_at A' pos \<longleftrightarrow>
                 bit_at A pos \<or> (\<exists>t < unat k - j. pos = unat (h + of_nat t * delta) mod (8 * length A)))"
  using assms
proof (induction "unat k - j" arbitrary: j h A)
  case 0
  then have "\<not> j < unat k" by simp
  then have "CreateFilter_probes k bits init_size h delta j (pre @ A @ suf) = Inr (pre @ A @ suf)"
    by (subst CreateFilter_probes.simps) simp
  with 0 show ?case by simp
next
  case (Suc m)
  let ?B = "8 * length A"
  let ?p = "unat h mod ?B"
  let ?A1 = "A[?p div 8 := A ! (?p div 8) OR push_bit (?p mod 8) 1]"
  from Suc.hyps(2) have j: "j < unat k" and m: "m = unat k - (j + 1)" by linarith+
  from Suc.prems have bits: "bits \<noteq> 0" by (auto simp: unat_eq_zero)
  have p: "?p < ?B" using Suc.prems by simp
  have bp: "unat (probe_bitpos h bits) = ?p"
    by (simp add: unat_probe_bitpos Suc.prems)
  have idx: "unat (probe_bitpos h bits div 8) = ?p div 8"
    by (simp only: unat_div8 bp)
  have bm: "unat (probe_bitpos h bits mod 8) = ?p mod 8"
    by (simp only: unat_mod8 bp)
  have pd: "?p div 8 < length A" using p by simp
  have upd: "(pre @ A @ suf)[length pre + ?p div 8 :=
               (pre @ A @ suf) ! (length pre + ?p div 8) OR push_bit (?p mod 8) 1]
             = pre @ ?A1 @ suf"
    using pd by (simp only: nth_middle update_middle)
  have step: "CreateFilter_probes k bits init_size h delta j (pre @ A @ suf)
                = CreateFilter_probes k bits init_size (h + delta) delta (j + 1) (pre @ ?A1 @ suf)"
    using j bits pd
    by (subst CreateFilter_probes.simps) (simp add: Let_def Suc.prems(1) idx bm update_middle nth_append)
  have len1: "length ?A1 = length A" by simp
  from Suc.hyps(1) [OF m Suc.prems(1), of ?A1 "h + delta"] Suc.prems(2,3)
  obtain A' where A': "CreateFilter_probes k bits init_size (h + delta) delta (j + 1) (pre @ ?A1 @ suf)
                         = Inr (pre @ A' @ suf)"
      and len: "length A' = length A"
      and bits': "\<forall>pos < ?B. bit_at A' pos \<longleftrightarrow>
                 bit_at ?A1 pos \<or> (\<exists>t < unat k - (j + 1). pos = unat (h + delta + of_nat t * delta) mod ?B)"
    by (auto simp add: len1)
  have shift: "\<And>t. h + delta + of_nat t * delta = h + of_nat (Suc t) * delta"
    by (simp add: algebra_simps)
  have "\<forall>pos < ?B. bit_at A' pos \<longleftrightarrow>
          bit_at A pos \<or> (\<exists>t < unat k - j. pos = unat (h + of_nat t * delta) mod ?B)"
  proof (intro allI impI)
    fix pos assume pos: "pos < ?B"
    have "bit_at A' pos \<longleftrightarrow> bit_at ?A1 pos \<or> (\<exists>t < m. pos = unat (h + of_nat (Suc t) * delta) mod ?B)"
      using bits' pos m by (simp only: shift)
    also have "bit_at ?A1 pos \<longleftrightarrow> bit_at A pos \<or> pos = ?p"
      using p pos by (rule bit_at_update)
    finally show "bit_at A' pos \<longleftrightarrow>
          bit_at A pos \<or> (\<exists>t < unat k - j. pos = unat (h + of_nat t * delta) mod ?B)"
      unfolding Suc.hyps(2) [symmetric] Ex_less_Suc2 by auto
  qed
  with step A' len show ?case by auto
qed

text \<open>The source's \<open>(h >> 17) | (h << 15)\<close> is the rotation to the right by 17 bits.\<close>

lemma rotate_right_17_eq: "rotate_right_17 h = word_rotr 17 h"
proof (rule bit_word_eqI)
  fix i assume "i < LENGTH(32)"
  then have i: "i < 32" by simp
  show "bit (rotate_right_17 h) i \<longleftrightarrow> bit (word_rotr 17 h) i"
  proof (cases "i < 15")
    case True
    then have "(i + 17) mod 32 = i + 17" by simp
    then show ?thesis
      using True i by (auto simp add: rotate_right_17_def bit_simps add.commute)
  next
    case False
    then have m: "(i + 17) mod 32 = i - 15" using i by (simp add: mod_if)
    have "\<not> bit h (i + 17)" "\<not> bit h (17 + i)"
      using False by (auto dest: bit_imp_le_length)
    then show ?thesis
      using False i by (auto simp add: rotate_right_17_def bit_simps m add.commute)
  qed
qed

lemma unat_probe_step:
  "unat (h + of_nat t * d :: 32 word) = (unat h + t * unat d) mod 2 ^ 32"
proof -
  have "unat (h + of_nat t * d) = (unat h + (t mod 2 ^ 32 * unat d) mod 2 ^ 32) mod 2 ^ 32"
    by (simp add: unat_word_ariths unat_of_nat)
  also have "\<dots> = (unat h + t * unat d) mod 2 ^ 32"
    by (simp add: mod_simps)
  finally show ?thesis .
qed

lemma probe_position_eq:
  "probe_position h t B = unat (h + of_nat t * rotate_right_17 h) mod B"
  by (simp only: probe_position_def unat_probe_step rotate_right_17_eq)

lemma CreateFilter_keys_effect:
  assumes "unat init_size = length pre" "unat bits = 8 * length A" "0 < length A"
      and "0 \<le> i" "i \<le> n" "n \<le> int (length keys)"
  shows "\<exists>A'. CreateFilter_keys H k bits init_size keys n i (pre @ A @ suf) = Inr (pre @ A' @ suf)
           \<and> length A' = length A
           \<and> (\<forall>pos < 8 * length A. bit_at A' pos \<longleftrightarrow>
                 bit_at A pos \<or> (\<exists>i' t. nat i \<le> i' \<and> int i' < n \<and> t < unat k
                     \<and> pos = probe_position (H (keys ! i')) t (8 * length A)))"
  using assms
proof (induction "nat (n - i)" arbitrary: i A)
  case 0
  then have "\<not> i < n" by simp
  then have "CreateFilter_keys H k bits init_size keys n i (pre @ A @ suf) = Inr (pre @ A @ suf)"
    by (subst CreateFilter_keys.simps) simp
  moreover have "\<not> (\<exists>i'. nat i \<le> i' \<and> int i' < n)"
    using \<open>\<not> i < n\<close> by auto
  ultimately show ?case by auto
next
  case (Suc m)
  let ?B = "8 * length A"
  let ?h = "H (keys ! nat i)"
  from Suc.hyps(2) have i: "i < n" and m: "m = nat (n - (i + 1))" by linarith+
  have ik: "nat i < length keys" using i Suc.prems by linarith
  from CreateFilter_probes_effect [OF Suc.prems(1,2,3), of k ?h "rotate_right_17 ?h" 0 suf]
  obtain A1 where A1: "CreateFilter_probes k bits init_size ?h (rotate_right_17 ?h) 0 (pre @ A @ suf)
                         = Inr (pre @ A1 @ suf)"
      and len1: "length A1 = length A"
      and bits1: "\<forall>pos < ?B. bit_at A1 pos \<longleftrightarrow>
                    bit_at A pos \<or> (\<exists>t < unat k. pos = probe_position ?h t ?B)"
    by (auto simp add: probe_position_eq)
  have step: "CreateFilter_keys H k bits init_size keys n i (pre @ A @ suf)
                = CreateFilter_keys H k bits init_size keys n (i + 1) (pre @ A1 @ suf)"
    using i ik Suc.prems(4)
    by (subst CreateFilter_keys.simps) (simp add: Let_def A1)
  have i1: "0 \<le> i + 1" "i + 1 \<le> n" using i Suc.prems by linarith+
  from Suc.hyps(1) [OF m Suc.prems(1), of A1] Suc.prems(2,3,6) i1 len1
  obtain A' where A': "CreateFilter_keys H k bits init_size keys n (i + 1) (pre @ A1 @ suf)
                         = Inr (pre @ A' @ suf)"
      and len: "length A' = length A"
      and bits': "\<forall>pos < ?B. bit_at A' pos \<longleftrightarrow>
                 bit_at A1 pos \<or> (\<exists>i' t. nat (i + 1) \<le> i' \<and> int i' < n \<and> t < unat k
                     \<and> pos = probe_position (H (keys ! i')) t ?B)"
    by auto
  have "\<forall>pos < ?B. bit_at A' pos \<longleftrightarrow>
          bit_at A pos \<or> (\<exists>i' t. nat i \<le> i' \<and> int i' < n \<and> t < unat k
                     \<and> pos = probe_position (H (keys ! i')) t ?B)"
  proof (intro allI impI)
    fix pos assume pos: "pos < ?B"
    let ?P = "\<lambda>i'. \<exists>t. t < unat k \<and> pos = probe_position (H (keys ! i')) t ?B"
    have split: "(\<exists>i'. nat i \<le> i' \<and> int i' < n \<and> ?P i')
                  \<longleftrightarrow> ?P (nat i) \<or> (\<exists>i'. nat (i + 1) \<le> i' \<and> int i' < n \<and> ?P i')"
    proof
      assume "\<exists>i'. nat i \<le> i' \<and> int i' < n \<and> ?P i'"
      then obtain i' where h: "nat i \<le> i'" "int i' < n" "?P i'" by blast
      show "?P (nat i) \<or> (\<exists>i'. nat (i + 1) \<le> i' \<and> int i' < n \<and> ?P i')"
      proof (cases "i' = nat i")
        case True
        with h show ?thesis by simp
      next
        case False
        with h have "nat (i + 1) \<le> i'" using Suc.prems(4) by linarith
        with h show ?thesis by blast
      qed
    next
      assume "?P (nat i) \<or> (\<exists>i'. nat (i + 1) \<le> i' \<and> int i' < n \<and> ?P i')"
      then show "\<exists>i'. nat i \<le> i' \<and> int i' < n \<and> ?P i'"
      proof
        assume "?P (nat i)"
        moreover have "int (nat i) < n" using i Suc.prems(4) by simp
        ultimately show ?thesis by blast
      next
        assume "\<exists>i'. nat (i + 1) \<le> i' \<and> int i' < n \<and> ?P i'"
        then obtain i' where h: "nat (i + 1) \<le> i'" "int i' < n" "?P i'" by blast
        then have "nat i \<le> i'" by linarith
        with h show ?thesis by blast
      qed
    qed
    have "bit_at A' pos \<longleftrightarrow> bit_at A1 pos \<or> (\<exists>i'. nat (i + 1) \<le> i' \<and> int i' < n \<and> ?P i')"
      using bits' pos by simp
    also have "bit_at A1 pos \<longleftrightarrow> bit_at A pos \<or> ?P (nat i)"
      using bits1 pos by auto
    finally show "bit_at A' pos \<longleftrightarrow>
          bit_at A pos \<or> (\<exists>i' t. nat i \<le> i' \<and> int i' < n \<and> t < unat k
                     \<and> pos = probe_position (H (keys ! i')) t ?B)"
      using split by blast
  qed
  with step A' len show ?case by auto
qed

lemma unat_scast_int:
  assumes "0 \<le> sint (n :: 32 word)"
  shows "unat (scast n :: 64 word) = nat (sint n)"
proof -
  have lt: "sint n < 2 ^ 31" using sint_lt [of n] by simp
  have "uint (scast n :: 64 word) = sint n mod 2 ^ 64"
    by (simp only: scast_eq uint_word_of_int) simp
  also have "\<dots> = sint n"
    using assms lt by (intro mod_pos_pos_trivial) simp_all
  finally show ?thesis by (simp only: unat_eq_nat_uint)
qed

lemma nat_sint_lt:
  "nat (sint (n :: 32 word)) < 2 ^ 31"
  using sint_lt [of n] by simp

lemma CreateFilter_sizes:
  fixes n :: "32 word" and b :: "64 word"
  assumes n: "0 \<le> sint n" and b: "unat b < 2 ^ 31"
  defines "bits0 \<equiv> (scast n :: 64 word) * b"
  defines "bits1 \<equiv> (if bits0 < 64 then 64 else bits0)"
  defines "bytes \<equiv> (bits1 + 7) div 8"
  shows "unat bytes = filter_bytes (nat (sint n)) (unat b)"
    and "unat (bytes * 8) = 8 * filter_bytes (nat (sint n)) (unat b)"
    and "filter_bytes (nat (sint n)) (unat b) < 2 ^ 60"
    and "0 < filter_bytes (nat (sint n)) (unat b)"
proof -
  let ?N = "nat (sint n)"
  have N: "?N < 2 ^ 31" by (rule nat_sint_lt)
  have "?N * unat b \<le> 2 ^ 31 * 2 ^ 31"
    using N b by (intro mult_mono) simp_all
  then have prod: "?N * unat b \<le> 2 ^ 62" by simp
  have u0: "unat bits0 = ?N * unat b"
  proof -
    have "unat (scast n :: 64 word) * unat b < 2 ^ LENGTH(64)"
      using prod by (simp add: unat_scast_int [OF n])
    then have "unat ((scast n :: 64 word) * b) = unat (scast n :: 64 word) * unat b"
      by (simp only: unat_mult_lem)
    then show ?thesis by (simp add: bits0_def unat_scast_int [OF n])
  qed
  have u1: "unat bits1 = max (?N * unat b) 64"
    by (simp add: bits1_def word_less_nat_alt u0 max_def)
  have u1le: "unat bits1 \<le> 2 ^ 62" using prod u1 by simp
  have "unat bits1 + unat (7 :: 64 word) < 2 ^ LENGTH(64)"
    using u1le by simp
  then have u7: "unat (bits1 + 7) = unat bits1 + 7"
    by (simp only: unat_add_lem) simp
  show ub: "unat bytes = filter_bytes ?N (unat b)"
    by (simp add: bytes_def unat_div u7 u1 filter_bytes_def)
  show lt: "filter_bytes ?N (unat b) < 2 ^ 60"
    using prod by (simp add: filter_bytes_def)
  show "0 < filter_bytes ?N (unat b)"
    by (simp add: filter_bytes_def)
  have "unat bytes * unat (8 :: 64 word) < 2 ^ LENGTH(64)"
    using lt by (simp add: ub)
  then have "unat (bytes * 8) = unat bytes * unat (8 :: 64 word)"
    by (simp only: unat_mult_lem)
  then show "unat (bytes * 8) = 8 * filter_bytes ?N (unat b)"
    by (simp add: ub)
qed

lemma unat_string_size:
  "length s < 2 ^ 64 \<Longrightarrow> unat (string_size s) = length s"
  by (simp add: string_size_def unat_of_nat take_bit_nat_eq_self)

lemma bit_at_replicate_0:
  "pos < 8 * m \<Longrightarrow> \<not> bit_at (replicate m 0) pos"
  by (simp add: bit_at_def)

lemma CreateFilter_effect:
  fixes n :: "32 word"
  assumes n: "0 \<le> sint n" "sint n \<le> int (length keys)"
      and b: "unat (bits_per_key_m p) < 2 ^ 31"
      and dst: "length dst < 2 ^ 63"
  shows "\<exists>A. CreateFilter H p keys n dst = Inr (dst @ A @ [ucast (k_m p)])
          \<and> length A = filter_bytes (nat (sint n)) (unat (bits_per_key_m p))
          \<and> (\<forall>pos < 8 * length A. bit_at A pos \<longleftrightarrow>
                (\<exists>i' t. i' < nat (sint n) \<and> t < unat (k_m p)
                    \<and> pos = probe_position (H (keys ! i')) t (8 * length A)))"
proof -
  let ?fb = "filter_bytes (nat (sint n)) (unat (bits_per_key_m p))"
  let ?bytes = "((if scast n * bits_per_key_m p < 64 then 64 else scast n * bits_per_key_m p) + 7) div 8"
  let ?Z = "replicate ?fb (0 :: byte)"
  note sz = CreateFilter_sizes [OF n(1) b]
  have init: "unat (string_size dst) = length dst"
    using dst by (simp add: unat_string_size)
  have "unat (string_size dst) + unat ?bytes < 2 ^ LENGTH(64)"
    using dst sz(3) by (simp only: init sz(1)) simp
  then have "unat (string_size dst + ?bytes) = unat (string_size dst) + unat ?bytes"
    by (simp only: unat_add_lem)
  then have sum: "unat (string_size dst + ?bytes) = length dst + ?fb"
    by (simp only: init sz(1))
  have rs: "resize dst (string_size dst + ?bytes) 0 = dst @ ?Z"
    by (simp only: resize_def sum) simp
  have unf: "CreateFilter H p keys n dst
               = CreateFilter_keys H (k_m p) (?bytes * 8) (string_size dst) keys (sint n) 0
                   (dst @ ?Z @ [ucast (k_m p)])"
    by (simp only: CreateFilter_def Let_def rs append_assoc)
  have lenZ: "length ?Z = ?fb" by simp
  have "unat (?bytes * 8) = 8 * length ?Z" "0 < length ?Z"
    using sz(2,4) by (simp_all only: lenZ)
  from CreateFilter_keys_effect [OF init this _ _ n(2), of 0 H "k_m p" "[ucast (k_m p)]"] n(1)
  obtain A where A: "CreateFilter_keys H (k_m p) (?bytes * 8) (string_size dst) keys (sint n) 0
                   (dst @ ?Z @ [ucast (k_m p)]) = Inr (dst @ A @ [ucast (k_m p)])"
      and len: "length A = ?fb"
      and bits: "\<forall>pos < 8 * ?fb. bit_at A pos \<longleftrightarrow>
                 bit_at ?Z pos \<or> (\<exists>i' t. nat 0 \<le> i' \<and> int i' < sint n \<and> t < unat (k_m p)
                     \<and> pos = probe_position (H (keys ! i')) t (8 * ?fb))"
    by (auto simp only: lenZ order_refl)
  have all: "\<forall>pos < 8 * length A. bit_at A pos \<longleftrightarrow>
                (\<exists>i' t. i' < nat (sint n) \<and> t < unat (k_m p)
                    \<and> pos = probe_position (H (keys ! i')) t (8 * length A))"
  proof (intro allI impI)
    fix pos assume "pos < 8 * length A"
    then have pos: "pos < 8 * ?fb" by (simp only: len)
    have r: "\<And>i'. int i' < sint n \<longleftrightarrow> i' < nat (sint n)" using n(1) by linarith
    show "bit_at A pos \<longleftrightarrow>
                (\<exists>i' t. i' < nat (sint n) \<and> t < unat (k_m p)
                    \<and> pos = probe_position (H (keys ! i')) t (8 * length A))"
      using bits pos bit_at_replicate_0 [OF pos] by (simp add: len r)
  qed
  show ?thesis
  proof (intro exI conjI)
    show "CreateFilter H p keys n dst = Inr (dst @ A @ [ucast (k_m p)])"
      by (simp only: unf A)
    show "length A = ?fb" by (rule len)
    show "\<forall>pos < 8 * length A. bit_at A pos \<longleftrightarrow>
                (\<exists>i' t. i' < nat (sint n) \<and> t < unat (k_m p)
                    \<and> pos = probe_position (H (keys ! i')) t (8 * length A))"
      by (rule all)
  qed
qed

lemma KeyMayMatch_probes_result:
  assumes "unat bits = 8 * length A" "0 < length A"
  shows "KeyMayMatch_probes (A @ suf) bits k h delta j
           = Inr (\<forall>t < unat k - j. bit_at A (unat (h + of_nat t * delta) mod (8 * length A)))"
proof (induction "unat k - j" arbitrary: j h)
  case 0
  then have "\<not> j < unat k" by simp
  then have "KeyMayMatch_probes (A @ suf) bits k h delta j = Inr True"
    by (subst KeyMayMatch_probes.simps) simp
  with 0 show ?case by simp
next
  case (Suc m)
  let ?B = "8 * length A"
  let ?p = "unat h mod ?B"
  from Suc.hyps(2) have j: "j < unat k" and m: "m = unat k - (j + 1)" by linarith+
  from assms have bits: "bits \<noteq> 0" by (auto simp: unat_eq_zero)
  have p: "?p < ?B" using assms by simp
  have bp: "unat (probe_bitpos h bits) = ?p"
    by (simp add: unat_probe_bitpos assms)
  have idx: "unat (probe_bitpos h bits div 8) = ?p div 8"
    by (simp only: unat_div8 bp)
  have bm: "unat (probe_bitpos h bits mod 8) = ?p mod 8"
    by (simp only: unat_mod8 bp)
  have pd: "?p div 8 < length A" using p by simp
  have test: "((A @ suf) ! (?p div 8) AND push_bit (?p mod 8) 1 = 0) \<longleftrightarrow> \<not> bit_at A ?p"
    using pd by (simp add: nth_append bit_at_def bit_test_byte_pow)
  have shift: "\<And>t. h + delta + of_nat t * delta = h + of_nat (Suc t) * delta"
    by (simp add: algebra_simps)
  have zero: "unat (h + of_nat 0 * delta) mod ?B = ?p" by simp
  show ?case
  proof (cases "bit_at A ?p")
    case False
    then have "KeyMayMatch_probes (A @ suf) bits k h delta j = Inr False"
      using j bits pd test
      by (subst KeyMayMatch_probes.simps) (simp add: Let_def idx bm)
    moreover have "\<not> (\<forall>t < unat k - j. bit_at A (unat (h + of_nat t * delta) mod ?B))"
      using False j zero by (metis zero_less_diff)
    ultimately show ?thesis by simp
  next
    case True
    then have "KeyMayMatch_probes (A @ suf) bits k h delta j
                 = KeyMayMatch_probes (A @ suf) bits k (h + delta) delta (j + 1)"
      using j bits pd test
      by (subst KeyMayMatch_probes.simps) (simp add: Let_def idx bm)
    also have "\<dots> = Inr (\<forall>t < m. bit_at A (unat (h + of_nat (Suc t) * delta) mod ?B))"
      using Suc.hyps(1) [OF m, of "h + delta"] by (simp only: shift m)
    also have "(\<forall>t < m. bit_at A (unat (h + of_nat (Suc t) * delta) mod ?B))
                \<longleftrightarrow> (\<forall>t < unat k - j. bit_at A (unat (h + of_nat t * delta) mod ?B))"
      unfolding Suc.hyps(2) [symmetric] All_less_Suc2 using True zero by simp
    finally show ?thesis .
  qed
qed

lemma KeyMayMatch_result:
  assumes A: "0 < length A" "length A < 2 ^ 61" and c: "uint c \<le> 30"
  shows "KeyMayMatch H p key (A @ [c])
           = Inr (\<forall>t < unat c. bit_at A (probe_position (H key) t (8 * length A)))"
proof -
  let ?len = "string_size (A @ [c])"
  have len1: "?len - 1 = of_nat (length A)"
    by (simp add: string_size_def)
  have ulen: "unat ?len = length A + 1"
    using A by (simp add: unat_string_size)
  have ge2: "\<not> ?len < 2"
    using A by (simp add: word_less_nat_alt ulen)
  have ul1: "unat (?len - 1) = length A"
    using A by (simp add: len1 unat_of_nat take_bit_nat_eq_self)
  have "unat (?len - 1) * unat (8 :: 64 word) < 2 ^ LENGTH(64)"
    using A by (simp add: ul1)
  then have "unat ((?len - 1) * 8) = unat (?len - 1) * unat (8 :: 64 word)"
    by (simp only: unat_mult_lem)
  then have ubits: "unat ((?len - 1) * 8) = 8 * length A"
    by (simp add: ul1)
  have last: "(A @ [c] @ [0]) ! unat (?len - 1) = c"
    by (simp add: ul1 nth_append)
  have inb: "unat (?len - 1) < length (A @ [c] @ [0])"
    by (simp add: ul1)
  note k = scast_byte_le_30 [OF c]
  have "KeyMayMatch H p key (A @ [c])
          = KeyMayMatch_probes (A @ ([c] @ [0])) ((?len - 1) * 8) (scast c) (H key)
              (rotate_right_17 (H key)) 0"
    using ge2 inb k(1) by (simp only: KeyMayMatch_def Let_def append_assoc last if_False if_True)
  also have "\<dots> = Inr (\<forall>t < unat (scast c :: 64 word) - 0.
       bit_at A (unat (H key + of_nat t * rotate_right_17 (H key)) mod (8 * length A)))"
    using ubits A(1) by (rule KeyMayMatch_probes_result)
  finally show ?thesis
    by (simp only: k(2) probe_position_eq diff_zero)
qed

section \<open>The number of probes\<close>

lemma round_to_double_upper: "round_to_double x \<le> 2 * x"
proof (cases "floorlog 2 x \<le> 53")
  case True
  then show ?thesis by (simp add: round_to_double_def)
next
  case False
  define s where "s = floorlog 2 x - 53"
  define q where "q = x div 2 ^ s"
  have x0: "0 < x" using False by (cases "x = 0") (simp_all add: floorlog_def)
  have "2 ^ (floorlog 2 x - 1) \<le> x"
    using floorlog_bounds [of x 2] x0 by simp
  moreover have "(2 :: nat) ^ s \<le> 2 ^ (floorlog 2 x - 1)"
    by (rule power_increasing) (simp_all add: s_def)
  ultimately have s: "2 ^ s \<le> x" by linarith
  have "q * 2 ^ s \<le> x" by (simp add: q_def)
  then have "(q + 1) * 2 ^ s \<le> 2 * x" using s by (simp add: algebra_simps)
  moreover have "round_to_double x \<le> (q + 1) * 2 ^ s"
    using False by (simp add: round_to_double_def Let_def s_def [symmetric] q_def [symmetric])
  ultimately show ?thesis by linarith
qed

lemma round_to_double_lower:
  assumes "c * 2 ^ 53 \<le> x" and "x < 2 ^ 106"
  shows "c * 2 ^ 53 \<le> round_to_double x"
proof (cases "floorlog 2 x \<le> 53")
  case True
  then show ?thesis using assms by (simp add: round_to_double_def)
next
  case False
  define s where "s = floorlog 2 x - 53"
  define q where "q = x div 2 ^ s"
  have "floorlog 2 x \<le> 106" using assms(2) by (intro floorlog_leI) simp_all
  then have s53: "s \<le> 53" by (simp add: s_def)
  have split: "c * 2 ^ 53 = (c * 2 ^ (53 - s)) * (2 :: nat) ^ s"
    using s53 by (simp add: power_add [symmetric])
  have "(c * 2 ^ (53 - s) * 2 ^ s) div 2 ^ s \<le> x div 2 ^ s"
    using assms(1) unfolding split by (rule div_le_mono)
  then have "c * 2 ^ (53 - s) \<le> q" by (simp add: q_def)
  then have "c * 2 ^ (53 - s) * 2 ^ s \<le> q * 2 ^ s" by simp
  then have "c * 2 ^ 53 \<le> q * 2 ^ s" by (simp only: split)
  moreover have "q * 2 ^ s \<le> round_to_double x"
    using False by (simp add: round_to_double_def Let_def s_def [symmetric] q_def [symmetric])
  ultimately show ?thesis by linarith
qed

lemma probes_small_list:
  "\<forall>n \<in> set [0, 1, 2, 3, 4, 5, 6, 7, 8, 9, 10, 11, 12, 13, 14, 15, 16, 17, 18, 19, 20, 21, 22, 23, 24, 25, 26, 27, 28, 29, 30, 31, 32, 33, 34, 35, 36, 37, 38, 39, 40, 41, 42, 43].
     round_to_double (n * double_0_69) div 2 ^ 53 = n * 69 div 100"
  by (simp only: list.set ball_simps)
    (simp add: round_to_double_def double_0_69_def compute_floorlog)

lemma upt_44: "[0..<44] = [0, 1, 2, 3, 4, 5, 6, 7, 8, 9, 10, 11, 12, 13, 14, 15, 16, 17, 18, 19, 20, 21, 22, 23, 24, 25, 26, 27, 28, 29, 30, 31, 32, 33, 34, 35, 36, 37, 38, 39, 40, 41, 42, 43]"
  by code_simp

lemma below_44:
  "(n :: nat) < 44 \<Longrightarrow> n \<in> set [0, 1, 2, 3, 4, 5, 6, 7, 8, 9, 10, 11, 12, 13, 14, 15, 16, 17, 18, 19, 20, 21, 22, 23, 24, 25, 26, 27, 28, 29, 30, 31, 32, 33, 34, 35, 36, 37, 38, 39, 40, 41, 42, 43]"
  unfolding upt_44 [symmetric] by simp

lemma probes_small:
  "n < 44 \<Longrightarrow> round_to_double (n * double_0_69) div 2 ^ 53 = n * 69 div 100"
  using probes_small_list below_44 by blast

lemma mul_0_69_nonneg:
  assumes "0 \<le> sint bpk"
  shows "mul_0_69 bpk = int (round_to_double (nat (sint bpk) * double_0_69))"
proof (cases "sint bpk = 0")
  case True
  then show ?thesis by (simp add: mul_0_69_def round_to_double_def floorlog_def)
next
  case False
  with assms have "sgn (sint bpk) = 1" by simp
  then show ?thesis using assms by (simp add: mul_0_69_def)
qed

lemma double_to_size_t_nonneg:
  assumes "r div 2 ^ 53 < (2 :: nat) ^ 64"
  shows "double_to_size_t (int r) = Inr (of_nat (r div 2 ^ 53))"
proof -
  have "sgn (int r) * (\<bar>int r\<bar> div 2 ^ 53) = int (r div 2 ^ 53)"
    by (cases "r = 0") (simp_all add: zdiv_int)
  moreover have "int (r div 2 ^ 53) < 2 ^ 64"
    using assms by (metis of_nat_less_iff of_nat_numeral of_nat_power)
  ultimately show ?thesis
    by (simp add: double_to_size_t_def Let_def del: of_nat_div)
qed

lemma trunc_bound:
  assumes "n < 2 ^ 31"
  shows "round_to_double (n * double_0_69) div 2 ^ 53 < 2 ^ 64"
proof -
  have x: "n * double_0_69 \<le> 2 ^ 31 * 2 ^ 53"
    using assms by (intro mult_mono) (simp_all add: double_0_69_def)
  have "round_to_double (n * double_0_69) \<le> 2 * (n * double_0_69)"
    by (rule round_to_double_upper)
  also have "\<dots> \<le> 2 * (2 ^ 31 * 2 ^ 53)"
    using x by (rule mult_le_mono2)
  also have "\<dots> = 2 ^ 32 * 2 ^ 53" by simp
  finally have "round_to_double (n * double_0_69) div 2 ^ 53 \<le> (2 ^ 32 * 2 ^ 53) div 2 ^ 53"
    by (rule div_le_mono)
  then show ?thesis by simp
qed

lemma trunc_large:
  assumes "44 \<le> n" "n < 2 ^ 31"
  shows "30 \<le> round_to_double (n * double_0_69) div 2 ^ 53"
proof -
  have "30 * 2 ^ 53 \<le> 44 * double_0_69" by (simp add: double_0_69_def)
  also have "\<dots> \<le> n * double_0_69" using assms(1) by (rule mult_le_mono1)
  finally have lo: "30 * 2 ^ 53 \<le> n * double_0_69" .
  have "n * double_0_69 \<le> 2 ^ 31 * 2 ^ 53"
    using assms by (intro mult_mono) (simp_all add: double_0_69_def)
  also have "\<dots> < (2 :: nat) ^ 106" by simp
  finally have "30 * 2 ^ 53 \<le> round_to_double (n * double_0_69)"
    using lo by (intro round_to_double_lower)
  then have "(30 * 2 ^ 53) div 2 ^ 53 \<le> round_to_double (n * double_0_69) div 2 ^ 53"
    by (rule div_le_mono)
  then show ?thesis by simp
qed

lemma trunc_clamped:
  assumes "n < 2 ^ 31"
  shows "max 1 (min 30 (round_to_double (n * double_0_69) div 2 ^ 53))
           = max 1 (min 30 (n * 69 div 100))"
proof (cases "n < 44")
  case True
  then show ?thesis by (simp only: probes_small)
next
  case False
  then have "30 \<le> round_to_double (n * double_0_69) div 2 ^ 53"
    using assms by (intro trunc_large) simp_all
  moreover have "30 \<le> n * 69 div 100" using False by simp
  ultimately show ?thesis by simp
qed

lemma clamp_word:
  fixes t :: nat
  assumes "t < 2 ^ 64"
  shows "(let k = (if (of_nat t :: 64 word) < 1 then 1 else (of_nat t :: 64 word));
              k = (if k > 30 then 30 else k)
          in f k) = f (of_nat (max 1 (min 30 t)) :: 64 word)"
proof -
  have u: "unat (of_nat t :: 64 word) = t"
    using assms by (simp add: unat_of_nat take_bit_nat_eq_self)
  have a: "(if (of_nat t :: 64 word) < 1 then 1 else (of_nat t :: 64 word))
             = (of_nat (max 1 t) :: 64 word)"
    by (auto simp add: word_less_nat_alt u max_def)
  have m: "max 1 t < 2 ^ 64" using assms by simp
  have u1: "unat (of_nat (max 1 t) :: 64 word) = max 1 t"
    using m by (simp add: unat_of_nat take_bit_nat_eq_self)
  have b: "(if (of_nat (max 1 t) :: 64 word) > 30 then 30 else of_nat (max 1 t))
             = (of_nat (max 1 (min 30 t)) :: 64 word)"
    by (auto simp add: word_less_nat_alt u u1 max_def min_def)
  show ?thesis by (simp only: Let_def a b)
qed

lemma BloomFilter_init_nonneg:
  assumes "0 \<le> sint bpk"
  shows "BloomFilter_init bpk
           = Inr \<lparr>bits_per_key_m = scast bpk,
                  k_m = of_nat (max 1 (min 30 (nat (sint bpk) * 69 div 100)))\<rparr>"
proof -
  let ?n = "nat (sint bpk)"
  let ?t = "round_to_double (?n * double_0_69) div 2 ^ 53"
  have n: "?n < 2 ^ 31" by (rule nat_sint_lt)
  have t: "?t < 2 ^ 64" using n by (rule trunc_bound)
  have d: "double_to_size_t (mul_0_69 bpk) = Inr (of_nat ?t)"
    using t by (simp only: mul_0_69_nonneg [OF assms] double_to_size_t_nonneg)
  show ?thesis
    by (simp only: BloomFilter_init_def d sum.case clamp_word [OF t] trunc_clamped [OF n])
qed

lemma filter_bytes_ceiling:
  "int (filter_bytes n b) = \<lceil>real (max (n * b) 64) / 8\<rceil>"
proof -
  define m where "m = max (n * b) 64"
  define k where "k = (m + 7) div 8"
  have "8 * k + (m + 7) mod 8 = m + 7"
    unfolding k_def by (rule mult_div_mod_eq)
  moreover have "(m + 7) mod 8 < 8" by simp
  ultimately have "m \<le> 8 * k" "8 * k < m + 8" by linarith+
  then have "real m \<le> 8 * real k" "8 * real k < real m + 8"
    by (metis of_nat_le_iff of_nat_mult of_nat_numeral, metis of_nat_less_iff of_nat_mult of_nat_numeral of_nat_add)
  then have "real_of_int (int k) - 1 < real m / 8" "real m / 8 \<le> real_of_int (int k)"
    by simp_all
  then have "\<lceil>real m / 8\<rceil> = int k"
    by (intro ceiling_unique) 
  then show ?thesis by (simp only: filter_bytes_def k_def m_def)
qed

section \<open>Policies and the link between construction and query\<close>

lemma probe_position_less: "0 < B \<Longrightarrow> probe_position h t B < B"
  by (simp add: probe_position_def)

lemma policy_nonneg:
  assumes "0 \<le> sint bpk"
  shows "\<exists>p. BloomFilter_init bpk = Inr p
           \<and> unat (bits_per_key_m p) = nat (sint bpk)
           \<and> unat (bits_per_key_m p) < 2 ^ 31
           \<and> 1 \<le> k_m p \<and> k_m p \<le> 30
           \<and> uint (k_m p) = num_probes_069 (sint bpk)"
proof -
  define K where "K = max 1 (min 30 (nat (sint bpk) * 69 div 100))"
  define p where "p = \<lparr>bits_per_key_m = scast bpk, k_m = of_nat K\<rparr>"
  have K: "1 \<le> K" "K \<le> 30" by (simp_all add: K_def)
  then have "K < 2 ^ 64" by simp
  then have uK: "unat (k_m p) = K"
    by (simp add: p_def unat_of_nat take_bit_nat_eq_self)
  have b: "unat (bits_per_key_m p) = nat (sint bpk)"
    using assms by (simp add: p_def unat_scast_int)
  have "int (nat (sint bpk) * 69 div 100) = sint bpk * 69 div 100"
    using assms by (simp add: zdiv_int)
  then have "int K = num_probes_069 (sint bpk)"
    unfolding num_probes_069_def K_def by (simp only: of_nat_max of_nat_min)
  then have u: "uint (k_m p) = num_probes_069 (sint bpk)"
    using uK by (metis uint_nat)
  have i: "BloomFilter_init bpk = Inr p"
    unfolding p_def K_def using assms by (rule BloomFilter_init_nonneg)
  have lt: "unat (bits_per_key_m p) < 2 ^ 31"
    using nat_sint_lt [of bpk] by (simp only: b)
  have k: "1 \<le> k_m p" "k_m p \<le> 30"
    using K by (simp_all add: word_le_nat_alt uK)
  from i b lt k u show ?thesis by blast
qed

lemma no_false_negative_gen:
  fixes n :: "32 word"
  assumes b: "unat (bits_per_key_m p) < 2 ^ 31" and k: "k_m p \<le> 30"
      and n: "sint n = int (length keys)" and key: "key \<in> set keys"
  shows "\<exists>f. CreateFilter H p keys n [] = Inr f \<and> KeyMayMatch H q key f = Inr True"
proof -
  have n0: "0 \<le> sint n" "sint n \<le> int (length keys)" using n by simp_all
  have e: "length ([] :: byte list) < 2 ^ 63" by simp
  from CreateFilter_effect [OF n0 b e, of H]
  obtain A where f: "CreateFilter H p keys n [] = Inr (A @ [ucast (k_m p)])"
      and len: "length A = filter_bytes (nat (sint n)) (unat (bits_per_key_m p))"
      and bits: "\<forall>pos < 8 * length A. bit_at A pos \<longleftrightarrow>
                (\<exists>i' t. i' < nat (sint n) \<and> t < unat (k_m p)
                    \<and> pos = probe_position (H (keys ! i')) t (8 * length A))"
    by auto
  have A: "0 < length A" "length A < 2 ^ 61"
    using CreateFilter_sizes(3,4) [OF n0(1) b] by (simp_all only: len) simp
  have uc: "unat (ucast (k_m p) :: byte) = unat (k_m p)"
    by (rule unat_ucast_k [OF k])
  have "unat (k_m p) \<le> 30" using k by (simp add: word_le_nat_alt)
  then have c: "uint (ucast (k_m p) :: byte) \<le> 30"
    using uc by (metis of_nat_le_iff of_nat_numeral uint_nat)
  from key obtain i where i: "i < length keys" "keys ! i = key"
    by (auto simp: in_set_conv_nth)
  have "\<forall>t < unat (ucast (k_m p) :: byte). bit_at A (probe_position (H key) t (8 * length A))"
  proof (intro allI impI)
    fix t assume "t < unat (ucast (k_m p) :: byte)"
    then have t: "t < unat (k_m p)" by (simp only: uc)
    have "probe_position (H key) t (8 * length A) < 8 * length A"
      using A by (intro probe_position_less) simp
    moreover have "\<exists>i' t'. i' < nat (sint n) \<and> t' < unat (k_m p)
        \<and> probe_position (H key) t (8 * length A) = probe_position (H (keys ! i')) t' (8 * length A)"
      using i t n by (intro exI [of _ i] exI [of _ t]) simp
    ultimately show "bit_at A (probe_position (H key) t (8 * length A))"
      using bits by blast
  qed
  then have "KeyMayMatch H q key (A @ [ucast (k_m p)]) = Inr True"
    using KeyMayMatch_result [OF A c, of H q key] by simp
  with f show ?thesis by simp
qed

lemma KeyMayMatch_short:
  assumes "length f < 2"
  shows "KeyMayMatch H p key f = Inr False"
proof -
  have "length f < 2 ^ 64" using assms by simp
  then have "unat (string_size f) = length f" by (rule unat_string_size)
  then have "string_size f < 2" using assms by (simp add: word_less_nat_alt)
  then show ?thesis by (simp add: KeyMayMatch_def)
qed

lemma KeyMayMatch_unfold:
  assumes "2 \<le> length f" "length f < 2 ^ 64"
  shows "KeyMayMatch H p key f =
           (if (30 :: size_t) < scast (last f) then Inr True
            else KeyMayMatch_probes (f @ [0]) ((string_size f - 1) * 8) (scast (last f))
                   (H key) (rotate_right_17 (H key)) 0)"
proof -
  have u: "unat (string_size f) = length f" using assms(2) by (rule unat_string_size)
  have ge2: "\<not> string_size f < 2" using assms(1) by (simp add: word_less_nat_alt u)
  have "(1 :: size_t) \<le> string_size f" using assms(1) by (simp add: word_le_nat_alt u)
  then have "unat (string_size f - 1) = unat (string_size f) - unat (1 :: size_t)"
    by (rule unat_sub)
  then have ul1: "unat (string_size f - 1) = length f - 1" by (simp add: u)
  have ne: "f \<noteq> []" using assms(1) by auto
  have last: "(f @ [0]) ! unat (string_size f - 1) = last f"
    using ne assms(1) by (simp add: ul1 nth_append last_conv_nth)
  have inb: "unat (string_size f - 1) < length (f @ [0])"
    by (simp add: ul1)
  show ?thesis
    using ge2 inb by (simp only: KeyMayMatch_def Let_def last if_False if_True)
qed

lemma KeyMayMatch_reserved:
  assumes "2 \<le> length f" "length f < 2 ^ 64" "30 < unat (last f)"
  shows "KeyMayMatch H p key f = Inr True"
proof -
  have "30 < uint (last f)" using assms(3) by (metis of_nat_less_iff of_nat_numeral uint_nat)
  then have "(30 :: size_t) < scast (last f)" by (rule scast_byte_gt_30)
  then show ?thesis by (simp only: KeyMayMatch_unfold [OF assms(1,2)] if_True)
qed

lemma KeyMayMatch_zero_probes:
  assumes "2 \<le> length f" "length f < 2 ^ 64" "last f = 0"
  shows "KeyMayMatch H p key f = Inr True"
proof -
  have "KeyMayMatch_probes (f @ [0]) ((string_size f - 1) * 8) 0
          (H key) (rotate_right_17 (H key)) 0 = Inr True"
    by (subst KeyMayMatch_probes.simps) simp
  then show ?thesis
    by (simp add: KeyMayMatch_unfold [OF assms(1,2)] assms(3))
qed

lemma unat_query_bits:
  assumes "0 < length f" "length f \<le> 2 ^ 61"
  shows "unat ((string_size f - 1) * 8) = 8 * (length f - 1)"
proof -
  have lt: "length f < 2 ^ 64" using assms(2) by simp
  have u: "unat (string_size f) = length f" using lt by (rule unat_string_size)
  have "(1 :: size_t) \<le> string_size f"
    using assms(1) by (simp add: word_le_nat_alt u Suc_le_eq)
  then have "unat (string_size f - 1) = unat (string_size f) - unat (1 :: size_t)"
    by (rule unat_sub)
  then have ul1: "unat (string_size f - 1) = length f - 1" by (simp add: u)
  have "unat (string_size f - 1) * unat (8 :: size_t) < 2 ^ LENGTH(64)"
    using assms by (simp add: ul1)
  then have "unat ((string_size f - 1) * 8) = unat (string_size f - 1) * unat (8 :: size_t)"
    by (simp only: unat_mult_lem)
  then show ?thesis by (simp add: ul1)
qed

lemma KeyMayMatch_in_bounds:
  assumes "2 \<le> length f" "length f \<le> 2 ^ 61" "unat (last f) \<le> 30"
  shows "\<exists>b. KeyMayMatch H p key f = Inr b"
proof -
  have ne: "f \<noteq> []" using assms(1) by auto
  have A: "0 < length (butlast f)" "length (butlast f) < 2 ^ 61"
    using assms(1,2) by simp_all
  have c: "uint (last f) \<le> 30"
    using assms(3) by (metis of_nat_le_iff of_nat_numeral uint_nat)
  have "KeyMayMatch H p key (butlast f @ [last f])
           = Inr (\<forall>t < unat (last f). bit_at (butlast f)
                    (probe_position (H key) t (8 * length (butlast f))))"
    using A c by (rule KeyMayMatch_result)
  then show ?thesis using ne by simp
qed

lemma probe_index_bound:
  assumes "2 \<le> length f" "length f \<le> 2 ^ 61"
  shows "unat (probe_bitpos h ((string_size f - 1) * 8) div 8) \<le> length f - 2"
proof -
  have "0 < length f" using assms(1) by linarith
  then have b: "unat ((string_size f - 1) * 8) = 8 * (length f - 1)"
    using assms(2) by (rule unat_query_bits)
  have "unat h mod (8 * (length f - 1)) < 8 * (length f - 1)"
    using assms(1) by simp
  then have "unat h mod (8 * (length f - 1)) div 8 < length f - 1"
    by simp
  moreover have "unat (probe_bitpos h ((string_size f - 1) * 8) div 8)
                   = unat h mod (8 * (length f - 1)) div 8"
    by (simp only: unat_div8 unat_probe_bitpos b)
  ultimately show ?thesis by linarith
qed

lemma filter_bytes_min: "a * b \<le> 64 \<Longrightarrow> filter_bytes a b = 8"
  by (simp add: filter_bytes_def max_def)

lemma CreateFilter_appends:
  fixes n :: "32 word"
  assumes n: "0 \<le> sint n \<and> sint n \<le> int (length keys)"
      and b: "unat (bits_per_key_m p) = nat (sint bpk)" "unat (bits_per_key_m p) < 2 ^ 31"
      and dst: "length dst < 2 ^ 63"
  shows "\<exists>f. CreateFilter H p keys n dst = Inr f
           \<and> length f = length dst + filter_bytes (nat (sint n)) (nat (sint bpk)) + 1
           \<and> last f = ucast (k_m p)"
proof -
  from n have n0: "0 \<le> sint n" "sint n \<le> int (length keys)" by simp_all
  from CreateFilter_effect [OF n0 b(2) dst, of H]
  obtain A where f: "CreateFilter H p keys n dst = Inr (dst @ A @ [ucast (k_m p)])"
      and len: "length A = filter_bytes (nat (sint n)) (unat (bits_per_key_m p))"
    by auto
  show ?thesis
    by (intro exI [of _ "dst @ A @ [ucast (k_m p)]"]) (simp add: f len b(1))
qed

lemma CreateFilter_frame:
  fixes n :: "32 word"
  assumes n: "0 \<le> sint n \<and> sint n \<le> int (length keys)"
      and b: "unat (bits_per_key_m p) < 2 ^ 31"
      and dst: "length dst < 2 ^ 63"
  shows "\<exists>f. CreateFilter H p keys n dst = Inr f
           \<and> length dst \<le> length f \<and> take (length dst) f = dst"
proof -
  from n have n0: "0 \<le> sint n" "sint n \<le> int (length keys)" by simp_all
  from CreateFilter_effect [OF n0 b dst, of H]
  obtain A where f: "CreateFilter H p keys n dst = Inr (dst @ A @ [ucast (k_m p)])"
    by auto
  show ?thesis
    by (intro exI [of _ "dst @ A @ [ucast (k_m p)]"]) (simp add: f)
qed

lemma CreateFilter_bits:
  fixes n :: "32 word"
  assumes n: "0 \<le> sint n \<and> sint n \<le> int (length keys)"
      and b: "unat (bits_per_key_m p) < 2 ^ 31"
      and dst: "length dst < 2 ^ 63"
  shows "\<exists>A. CreateFilter H p keys n dst = Inr (dst @ A @ [ucast (k_m p)])
          \<and> (\<forall>pos < 8 * length A. bit_at A pos \<longleftrightarrow>
                (\<exists>i j. i < nat (sint n) \<and> j < unat (k_m p)
                    \<and> pos = probe_position (H (keys ! i)) j (8 * length A)))"
proof -
  from n have n0: "0 \<le> sint n" "sint n \<le> int (length keys)" by simp_all
  from CreateFilter_effect [OF n0 b dst, of H] show ?thesis by blast
qed

lemma exp_9_13: "exp (9 / 13 :: real) \<le> 2"
proof -
  obtain t :: real where t: "\<bar>t\<bar> \<le> \<bar>9 / 13\<bar>"
    and e: "exp (9 / 13 :: real) = (\<Sum>m<7. (9 / 13) ^ m / fact m) + exp t / fact 7 * (9 / 13) ^ 7"
    using Maclaurin_exp_le [of "9 / 13" 7] by blast
  have "t \<le> 1" using t by simp
  then have "exp t \<le> exp 1" by simp
  also have "\<dots> \<le> 3" by (rule exp_le)
  finally have e3: "exp t \<le> 3" .
  have "exp t / fact 7 * (9 / 13) ^ 7 \<le> 3 / fact 7 * (9 / 13 :: real) ^ 7"
    using e3 by (intro mult_right_mono divide_right_mono) simp_all
  moreover have "(\<Sum>m<7. (9 / 13 :: real) ^ m / fact m) + 3 / fact 7 * (9 / 13) ^ 7 \<le> 2"
    by (simp add: lessThan_Suc eval_nat_numeral fact_numeral)
  ultimately show ?thesis using e by linarith
qed

lemma ln2_lower: "9 / 13 \<le> ln (2 :: real)"
proof -
  have "9 / 13 \<le> ln (2 :: real) \<longleftrightarrow> exp (9 / 13) \<le> (2 :: real)"
    by (rule ln_ge_iff) simp
  then show ?thesis using exp_9_13 by blast
qed

lemma ln2_upper: "ln (2 :: real) < 10 / 13"
proof -
  have "1 + 10 / 13 + (10 / 13)\<^sup>2 / 2 \<le> exp (10 / 13 :: real)"
    by (rule exp_lower_Taylor_quadratic) simp
  moreover have "(2 :: real) < 1 + 10 / 13 + (10 / 13)\<^sup>2 / 2"
    by (simp add: power2_eq_square)
  ultimately have "2 < exp (10 / 13 :: real)" by linarith
  then have "ln 2 < ln (exp (10 / 13 :: real))"
    by (subst ln_less_cancel_iff) simp_all
  then show ?thesis by simp
qed

lemma spec_num_probes_13: "spec_num_probes 13 = 9"
proof -
  have "\<lfloor>13 * ln (2 :: real)\<rfloor> = 9"
    using ln2_lower ln2_upper by (intro floor_unique) simp_all
  then show ?thesis by (simp add: spec_num_probes_def)
qed

lemma BloomFilter_init_minus_one:
  "BloomFilter_init (- 1) = Inr \<lparr>bits_per_key_m = - 1, k_m = 1\<rparr>"
  by (simp add: BloomFilter_init_def double_to_size_t_def mul_0_69_def round_to_double_def
      double_0_69_def compute_floorlog)

lemma BloomFilter_init_minus_two:
  "BloomFilter_init (- 2) = Inr \<lparr>bits_per_key_m = - 2, k_m = 30\<rparr>"
  by (simp add: BloomFilter_init_def double_to_size_t_def mul_0_69_def round_to_double_def
      double_0_69_def compute_floorlog)

lemma num_probes_069_nonneg:
  assumes "0 \<le> s"
  shows "int (max 1 (min 30 (nat s * 69 div 100))) = num_probes_069 s"
proof -
  have "int (nat s * 69 div 100) = s * 69 div 100"
    using assms by (simp add: zdiv_int)
  then show ?thesis
    unfolding num_probes_069_def by (simp only: of_nat_max of_nat_min)
qed

lemma num_probes_069_floor:
  "num_probes_069 b = max 1 (min 30 \<lfloor>real_of_int b * 0.69\<rfloor>)"
proof -
  have "real_of_int b * 0.69 = real_of_int (b * 69) / real_of_int 100" by simp
  then have "\<lfloor>real_of_int b * 0.69\<rfloor> = b * 69 div 100"
    by (simp only: floor_divide_of_int_eq)
  then show ?thesis by (simp only: num_probes_069_def)
qed

lemma KeyMayMatch_total:
  assumes "2 \<le> length f" "length f \<le> 2 ^ 61"
  shows "\<exists>b. KeyMayMatch H p key f = Inr b"
proof (cases "unat (last f) \<le> 30")
  case True
  with assms show ?thesis by (rule KeyMayMatch_in_bounds)
next
  case False
  then have "30 < unat (last f)" by simp
  moreover have "length f < 2 ^ 64" using assms(2) by simp
  ultimately have "KeyMayMatch H p key f = Inr True"
    using assms(1) by (intro KeyMayMatch_reserved)
  then show ?thesis by blast
qed

section \<open>Claims\<close>

text \<open>
  Claim C1 (no false negatives).  For every policy created from a positive
  \<open>bits_per_key\<close>, every list of string keys and every list of \<open>uint64\<close> keys
  passed with its length as \<open>n\<close>, and every key of the list: construction into
  the empty buffer returns a filter, and the query of that filter for the key
  returns \<open>true\<close>.
\<close>

theorem no_false_negatives:
  assumes "0 < sint bits_per_key"
  shows "\<exists>p. BloomFilter_init bits_per_key = Inr p \<and>
           (\<forall>keys n key. sint n = int (length keys) \<and> key \<in> set keys \<longrightarrow>
              (\<exists>f. CreateFilter_string p keys n [] = Inr f
                 \<and> KeyMayMatch_string p key f = Inr True)) \<and>
           (\<forall>keys n key. sint n = int (length keys) \<and> key \<in> set keys \<longrightarrow>
              (\<exists>f. CreateFilter_uint64 p keys n [] = Inr f
                 \<and> KeyMayMatch_uint64 p key f = Inr True))"
proof -
  from assms have "0 \<le> sint bits_per_key" by simp
  from policy_nonneg [OF this]
  obtain p where p: "BloomFilter_init bits_per_key = Inr p"
      and b: "unat (bits_per_key_m p) < 2 ^ 31" and k: "k_m p \<le> 30"
    by blast
  show ?thesis
  proof (intro exI [of _ p] conjI allI impI)
    show "BloomFilter_init bits_per_key = Inr p" by (rule p)
  next
    fix keys :: "std_string list" and n :: c_int and key
    assume "sint n = int (length keys) \<and> key \<in> set keys"
    then show "\<exists>f. CreateFilter_string p keys n [] = Inr f
                 \<and> KeyMayMatch_string p key f = Inr True"
      unfolding CreateFilter_string_def KeyMayMatch_string_def
      by (intro no_false_negative_gen [OF b k]) simp_all
  next
    fix keys :: "uint64_t list" and n :: c_int and key
    assume "sint n = int (length keys) \<and> key \<in> set keys"
    then show "\<exists>f. CreateFilter_uint64 p keys n [] = Inr f
                 \<and> KeyMayMatch_uint64 p key f = Inr True"
      unfolding CreateFilter_uint64_def KeyMayMatch_uint64_def
      by (intro no_false_negative_gen [OF b k]) simp_all
  qed
qed

theorem no_false_negatives_witness:
  "BloomFilter_init 10 = Inr \<lparr>bits_per_key_m = 10, k_m = 6\<rparr>
   \<and> CreateFilter_string \<lparr>bits_per_key_m = 10, k_m = 6\<rparr> [[97], [98]] 2 []
        = Inr [24, 48, 96, 192, 128, 1, 3, 0, 6]
   \<and> KeyMayMatch_string \<lparr>bits_per_key_m = 10, k_m = 6\<rparr> [98]
          [24, 48, 96, 192, 128, 1, 3, 0, 6] = Inr True
   \<and> CreateFilter_uint64 \<lparr>bits_per_key_m = 10, k_m = 6\<rparr> [1, 2] 2 []
        = Inr [1, 64, 0, 0, 1, 64, 0, 0, 6]
   \<and> KeyMayMatch_uint64 \<lparr>bits_per_key_m = 10, k_m = 6\<rparr> 2
          [1, 64, 0, 0, 1, 64, 0, 0, 6] = Inr True"
proof -
  let ?p = "\<lparr>bits_per_key_m = 10, k_m = 6\<rparr>"
  have h: "0 < sint (10 :: c_int)" by simp
  have i: "BloomFilter_init 10 = Inr ?p"
    by (simp add: BloomFilter_init_def double_to_size_t_def mul_0_69_def round_to_double_def
        double_0_69_def compute_floorlog)
  have c1: "CreateFilter_string ?p [[97], [98]] 2 [] = Inr [24, 48, 96, 192, 128, 1, 3, 0, 6]"
    by code_simp
  have c2: "CreateFilter_uint64 ?p [1, 2] 2 [] = Inr [1, 64, 0, 0, 1, 64, 0, 0, 6]"
    by code_simp
  from no_false_negatives [OF h] i
  have s: "\<And>keys n key. sint n = int (length keys) \<Longrightarrow> key \<in> set keys \<Longrightarrow>
              (\<exists>f. CreateFilter_string ?p keys n [] = Inr f
                 \<and> KeyMayMatch_string ?p key f = Inr True)"
    and u: "\<And>keys n key. sint n = int (length keys) \<Longrightarrow> key \<in> set keys \<Longrightarrow>
              (\<exists>f. CreateFilter_uint64 ?p keys n [] = Inr f
                 \<and> KeyMayMatch_uint64 ?p key f = Inr True)"
    by auto
  have m1: "KeyMayMatch_string ?p [98] [24, 48, 96, 192, 128, 1, 3, 0, 6] = Inr True"
    using s [of 2 "[[97], [98]]" "[98]"] c1 by simp
  have m2: "KeyMayMatch_uint64 ?p 2 [1, 64, 0, 0, 1, 64, 0, 0, 6] = Inr True"
    using u [of 2 "[1, 2]" 2] c2 by simp
  from i c1 m1 c2 m2 show ?thesis by (intro conjI)
qed

text \<open>
  Claim C2, as amended.  For every \<open>bits_per_key \<ge> -1\<close> the constructor returns
  the policy whose number of probes is \<open>floor(bits_per_key * 0.69)\<close> clamped to
  \<open>[1, 30]\<close>, with the source's constant \<open>0.69\<close> in the place of \<open>ln 2\<close>.
\<close>

theorem probes_from_bits_per_key:
  assumes "- 1 \<le> sint bits_per_key"
  shows "BloomFilter_init bits_per_key =
           Inr \<lparr>bits_per_key_m = scast bits_per_key,
                 k_m = word_of_int (num_probes_069 (sint bits_per_key))\<rparr>
       \<and> num_probes_069 (sint bits_per_key)
           = max 1 (min 30 \<lfloor>real_of_int (sint bits_per_key) * 0.69\<rfloor>)"
proof (intro conjI)
  show "num_probes_069 (sint bits_per_key)
       = max 1 (min 30 \<lfloor>real_of_int (sint bits_per_key) * 0.69\<rfloor>)"
    by (rule num_probes_069_floor)
  from assms consider "sint bits_per_key = - 1" | "0 \<le> sint bits_per_key"
    by linarith
  then show "BloomFilter_init bits_per_key =
           Inr \<lparr>bits_per_key_m = scast bits_per_key,
                 k_m = word_of_int (num_probes_069 (sint bits_per_key))\<rparr>"
  proof cases
    case 1
    then have "word_of_int (sint bits_per_key) = (word_of_int (- 1) :: c_int)" by simp
    then have b: "bits_per_key = - 1" by simp
    show ?thesis
      unfolding b by (simp add: BloomFilter_init_minus_one num_probes_069_def)
  next
    case 2
    then have "BloomFilter_init bits_per_key
           = Inr \<lparr>bits_per_key_m = scast bits_per_key,
                  k_m = of_nat (max 1 (min 30 (nat (sint bits_per_key) * 69 div 100)))\<rparr>"
      by (rule BloomFilter_init_nonneg)
    moreover have "(of_nat (max 1 (min 30 (nat (sint bits_per_key) * 69 div 100))) :: size_t)
            = word_of_int (num_probes_069 (sint bits_per_key))"
      by (simp only: num_probes_069_nonneg [OF 2, symmetric] of_int_of_nat_eq)
    ultimately show ?thesis by simp
  qed
qed

theorem probes_from_bits_per_key_witness:
  "BloomFilter_init 10 = Inr \<lparr>bits_per_key_m = 10, k_m = 6\<rparr>
   \<and> BloomFilter_init 100 = Inr \<lparr>bits_per_key_m = 100, k_m = 30\<rparr>
   \<and> BloomFilter_init 1 = Inr \<lparr>bits_per_key_m = 1, k_m = 1\<rparr>
   \<and> BloomFilter_init 0 = Inr \<lparr>bits_per_key_m = 0, k_m = 1\<rparr>"
  using probes_from_bits_per_key [of 10] probes_from_bits_per_key [of 100]
    probes_from_bits_per_key [of 1] probes_from_bits_per_key [of 0]
  by (simp add: num_probes_069_def)

text \<open>
  Claim C2 as stated, with \<open>ln 2\<close>, fails at \<open>bits_per_key = 13\<close>: the source
  derives 8 probes, and \<open>floor(13 * ln 2)\<close> is 9.
\<close>

theorem probes_not_floor_ln2_counterexample:
  "BloomFilter_init 13 = Inr \<lparr>bits_per_key_m = 13, k_m = 8\<rparr> \<and> spec_num_probes 13 = 9"
proof
  show "BloomFilter_init 13 = Inr \<lparr>bits_per_key_m = 13, k_m = 8\<rparr>"
    by (simp add: BloomFilter_init_def double_to_size_t_def mul_0_69_def round_to_double_def
        double_0_69_def compute_floorlog)
  show "spec_num_probes 13 = 9" by (rule spec_num_probes_13)
qed

text \<open>
  Claim C3 (reserved encodings).  For every key of either type and every filter
  of at least two bytes (and of a size a \<open>size_t\<close> can hold) whose last byte,
  read as an unsigned value, is greater than 30, the query returns \<open>true\<close>,
  whatever the bit array holds.
\<close>

theorem reserved_encoding_matches:
  assumes "2 \<le> length bloom_filter" and "length bloom_filter < 2 ^ 64"
      and "30 < unat (last bloom_filter)"
  shows "KeyMayMatch_string p skey bloom_filter = Inr True
       \<and> KeyMayMatch_uint64 p ukey bloom_filter = Inr True"
  unfolding KeyMayMatch_string_def KeyMayMatch_uint64_def
  using assms by (simp add: KeyMayMatch_reserved)

theorem reserved_encoding_matches_witness:
  "KeyMayMatch_string \<lparr>bits_per_key_m = 10, k_m = 6\<rparr> [97] [0, 0, 0, 0, 0, 0, 0, 0, 31]
     = Inr True
   \<and> KeyMayMatch_uint64 \<lparr>bits_per_key_m = 10, k_m = 6\<rparr> 1 [0, 0, 0, 0, 0, 0, 0, 0, 31]
     = Inr True
   \<and> KeyMayMatch_string \<lparr>bits_per_key_m = 10, k_m = 6\<rparr> [97] [0, 255] = Inr True"
  using reserved_encoding_matches [of "[0, 0, 0, 0, 0, 0, 0, 0, 31]"
          "\<lparr>bits_per_key_m = 10, k_m = 6\<rparr>" "[97]" 1]
        reserved_encoding_matches [of "[0, 255]" "\<lparr>bits_per_key_m = 10, k_m = 6\<rparr>" "[97]" 1]
  by simp

text \<open>
  Claim C4 (too-short filter).  For every key of either type and every filter
  of length 0 or 1, the query returns \<open>false\<close>; it is a result, not an error.
\<close>

theorem short_filter_rejects:
  assumes "length bloom_filter < 2"
  shows "KeyMayMatch_string p skey bloom_filter = Inr False
       \<and> KeyMayMatch_uint64 p ukey bloom_filter = Inr False"
  unfolding KeyMayMatch_string_def KeyMayMatch_uint64_def
  using assms by (simp add: KeyMayMatch_short)

theorem short_filter_rejects_witness:
  "KeyMayMatch_string \<lparr>bits_per_key_m = 10, k_m = 6\<rparr> [97] [] = Inr False
   \<and> KeyMayMatch_uint64 \<lparr>bits_per_key_m = 10, k_m = 6\<rparr> 1 [] = Inr False
   \<and> KeyMayMatch_string \<lparr>bits_per_key_m = 10, k_m = 6\<rparr> [97] [120] = Inr False
   \<and> KeyMayMatch_uint64 \<lparr>bits_per_key_m = 10, k_m = 6\<rparr> 1 [120] = Inr False"
  using short_filter_rejects [of "[]" "\<lparr>bits_per_key_m = 10, k_m = 6\<rparr>" "[97]" 1]
        short_filter_rejects [of "[120]" "\<lparr>bits_per_key_m = 10, k_m = 6\<rparr>" "[97]" 1]
  by simp

text \<open>
  Claim C5 (size of the appended filter).  For every policy created from a
  non-negative \<open>bits_per_key\<close>, every destination buffer (shorter than \<open>2^63\<close>
  bytes), every list of keys of either type and every count \<open>0 \<le> n\<close> of keys
  taken from it: construction returns the destination with exactly
  \<open>filter_bytes n bits_per_key + 1\<close> more bytes, the last of them the probe
  count; \<open>filter_bytes n b\<close> is \<open>ceil(max(n * b, 64) / 8)\<close>, and it is 8 whenever
  \<open>n * b \<le> 64\<close> (so for \<open>n = 0\<close>, and for \<open>n = 1\<close> with a small \<open>bits_per_key\<close>).
\<close>

theorem construction_appends_filter_bytes:
  assumes "0 \<le> sint bits_per_key" and "length dst < 2 ^ 63"
  shows "\<exists>p. BloomFilter_init bits_per_key = Inr p \<and>
           (\<forall>keys n. 0 \<le> sint n \<and> sint n \<le> int (length keys) \<longrightarrow>
              (\<exists>f. CreateFilter_string p keys n dst = Inr f
                 \<and> length f
                     = length dst + filter_bytes (nat (sint n)) (nat (sint bits_per_key)) + 1
                 \<and> last f = ucast (k_m p))) \<and>
           (\<forall>keys n. 0 \<le> sint n \<and> sint n \<le> int (length keys) \<longrightarrow>
              (\<exists>f. CreateFilter_uint64 p keys n dst = Inr f
                 \<and> length f
                     = length dst + filter_bytes (nat (sint n)) (nat (sint bits_per_key)) + 1
                 \<and> last f = ucast (k_m p))) \<and>
           (\<forall>a b. int (filter_bytes a b) = \<lceil>real (max (a * b) 64) / 8\<rceil>) \<and>
           (\<forall>a b. a * b \<le> 64 \<longrightarrow> filter_bytes a b = 8)"
proof -
  from policy_nonneg [OF assms(1)]
  obtain p where p: "BloomFilter_init bits_per_key = Inr p"
      and b: "unat (bits_per_key_m p) = nat (sint bits_per_key)"
             "unat (bits_per_key_m p) < 2 ^ 31"
    by blast
  show ?thesis
  proof (intro exI [of _ p] conjI allI impI)
    show "BloomFilter_init bits_per_key = Inr p" by (rule p)
  next
    fix keys :: "std_string list" and n :: c_int
    assume "0 \<le> sint n \<and> sint n \<le> int (length keys)"
    then show "\<exists>f. CreateFilter_string p keys n dst = Inr f
                 \<and> length f
                     = length dst + filter_bytes (nat (sint n)) (nat (sint bits_per_key)) + 1
                 \<and> last f = ucast (k_m p)"
      unfolding CreateFilter_string_def using b assms(2) by (rule CreateFilter_appends)
  next
    fix keys :: "uint64_t list" and n :: c_int
    assume "0 \<le> sint n \<and> sint n \<le> int (length keys)"
    then show "\<exists>f. CreateFilter_uint64 p keys n dst = Inr f
                 \<and> length f
                     = length dst + filter_bytes (nat (sint n)) (nat (sint bits_per_key)) + 1
                 \<and> last f = ucast (k_m p)"
      unfolding CreateFilter_uint64_def using b assms(2) by (rule CreateFilter_appends)
  next
    fix a b
    show "int (filter_bytes a b) = \<lceil>real (max (a * b) 64) / 8\<rceil>"
      by (rule filter_bytes_ceiling)
  next
    fix a b :: nat
    assume "a * b \<le> 64"
    then show "filter_bytes a b = 8" by (rule filter_bytes_min)
  qed
qed

theorem construction_appends_filter_bytes_witness:
  "BloomFilter_init 10 = Inr \<lparr>bits_per_key_m = 10, k_m = 6\<rparr>
   \<and> CreateFilter_string \<lparr>bits_per_key_m = 10, k_m = 6\<rparr> [[97]] 1 [7, 7]
        = Inr [7, 7, 8, 16, 32, 64, 128, 0, 1, 0, 6]
   \<and> length [7, 7, 8, 16, 32, 64, 128, 0, 1, 0, 6 :: byte] = length [7, 7 :: byte] + 8 + 1
   \<and> CreateFilter_uint64 \<lparr>bits_per_key_m = 10, k_m = 6\<rparr> [] 0 []
        = Inr [0, 0, 0, 0, 0, 0, 0, 0, 6]
   \<and> filter_bytes 1 10 = 8 \<and> filter_bytes 0 10 = 8"
proof -
  let ?p = "\<lparr>bits_per_key_m = 10, k_m = 6\<rparr>"
  have h: "0 \<le> sint (10 :: c_int)" "length [7, 7 :: byte] < 2 ^ 63" by simp_all
  have i: "BloomFilter_init 10 = Inr ?p"
    by (simp add: BloomFilter_init_def double_to_size_t_def mul_0_69_def round_to_double_def
        double_0_69_def compute_floorlog)
  have c1: "CreateFilter_string ?p [[97]] 1 [7, 7] = Inr [7, 7, 8, 16, 32, 64, 128, 0, 1, 0, 6]"
    by code_simp
  have c2: "CreateFilter_uint64 ?p [] 0 [] = Inr [0, 0, 0, 0, 0, 0, 0, 0, 6]"
    by code_simp
  from construction_appends_filter_bytes [OF h] i
  have s: "\<And>keys n. 0 \<le> sint n \<and> sint n \<le> int (length keys) \<Longrightarrow>
              (\<exists>f. CreateFilter_string ?p keys n [7, 7] = Inr f
                 \<and> length f = length [7, 7 :: byte] + filter_bytes (nat (sint n)) (nat (sint (10 :: c_int))) + 1
                 \<and> last f = ucast (k_m ?p))"
    and m: "\<And>a b. a * b \<le> 64 \<Longrightarrow> filter_bytes a b = 8"
    by auto
  have m1: "filter_bytes 1 10 = 8" "filter_bytes 0 10 = 8"
    by (rule m, simp)+
  have "length [7, 7, 8, 16, 32, 64, 128, 0, 1, 0, 6 :: byte]
          = length [7, 7 :: byte] + filter_bytes 1 10 + 1"
    using s [of 1 "[[97]]"] c1 by simp
  then have l: "length [7, 7, 8, 16, 32, 64, 128, 0, 1, 0, 6 :: byte] = length [7, 7 :: byte] + 8 + 1"
    by (simp only: m1)
  from i c1 l c2 m1 show ?thesis by (intro conjI)
qed

text \<open>
  Claim C6 (the query does not depend on the querying instance).  For every two
  policies, every key of either type and every filter, the two instances return
  the same result: the query reads the probe count from the filter only.
\<close>

theorem query_independent_of_policy:
  "KeyMayMatch_string p1 skey bloom_filter = KeyMayMatch_string p2 skey bloom_filter
   \<and> KeyMayMatch_uint64 p1 ukey bloom_filter = KeyMayMatch_uint64 p2 ukey bloom_filter"
  by (simp add: KeyMayMatch_string_def KeyMayMatch_uint64_def KeyMayMatch_def)

theorem query_independent_of_policy_witness:
  "KeyMayMatch_string \<lparr>bits_per_key_m = 20, k_m = 13\<rparr> [104, 101, 108, 108, 111]
      [81, 85, 17, 65, 68, 85, 68, 16, 13] = Inr True
   \<and> KeyMayMatch_string \<lparr>bits_per_key_m = 2, k_m = 1\<rparr> [104, 101, 108, 108, 111]
      [81, 85, 17, 65, 68, 85, 68, 16, 13] = Inr True"
proof -
  have "KeyMayMatch_string \<lparr>bits_per_key_m = 20, k_m = 13\<rparr> [104, 101, 108, 108, 111]
      [81, 85, 17, 65, 68, 85, 68, 16, 13] = Inr True"
    by code_simp
  then show ?thesis
    using query_independent_of_policy [of "\<lparr>bits_per_key_m = 20, k_m = 13\<rparr>"
        "[104, 101, 108, 108, 111]" "[81, 85, 17, 65, 68, 85, 68, 16, 13]"
        "\<lparr>bits_per_key_m = 2, k_m = 1\<rparr>" 0]
    by simp
qed

text \<open>
  Claim C7 (the bits set by construction).  For every policy created from a
  non-negative \<open>bits_per_key\<close>, every destination buffer (shorter than \<open>2^63\<close>
  bytes), every list of keys of either type and every count \<open>0 \<le> n\<close> of keys
  taken from it: construction returns the destination followed by a bit array
  \<open>A\<close> and the probe-count byte, and a bit of \<open>A\<close> is set exactly when it is the
  position \<open>((h0 + j * delta) mod 2^32) mod total_bits\<close> of a probe
  \<open>j < num_probes\<close> of one of the first \<open>n\<close> keys, with \<open>h0\<close> the hash of the key,
  \<open>delta\<close> its rotation to the right by 17 bits and \<open>total_bits\<close> the size of
  \<open>A\<close> in bits.
\<close>

theorem construction_sets_probe_bits:
  assumes "0 \<le> sint bits_per_key" and "length dst < 2 ^ 63"
  shows "\<exists>p. BloomFilter_init bits_per_key = Inr p \<and>
           (\<forall>keys n. 0 \<le> sint n \<and> sint n \<le> int (length keys) \<longrightarrow>
              (\<exists>A. CreateFilter_string p keys n dst = Inr (dst @ A @ [ucast (k_m p)])
                 \<and> (\<forall>pos < 8 * length A. bit_at A pos \<longleftrightarrow>
                       (\<exists>i j. i < nat (sint n) \<and> j < unat (k_m p)
                          \<and> pos = probe_position (BloomHash_string (keys ! i)) j
                                    (8 * length A))))) \<and>
           (\<forall>keys n. 0 \<le> sint n \<and> sint n \<le> int (length keys) \<longrightarrow>
              (\<exists>A. CreateFilter_uint64 p keys n dst = Inr (dst @ A @ [ucast (k_m p)])
                 \<and> (\<forall>pos < 8 * length A. bit_at A pos \<longleftrightarrow>
                       (\<exists>i j. i < nat (sint n) \<and> j < unat (k_m p)
                          \<and> pos = probe_position (BloomHash_uint64 (keys ! i)) j
                                    (8 * length A)))))"
proof -
  from policy_nonneg [OF assms(1)]
  obtain p where p: "BloomFilter_init bits_per_key = Inr p"
      and b: "unat (bits_per_key_m p) < 2 ^ 31"
    by blast
  show ?thesis
  proof (intro exI [of _ p] conjI allI impI)
    show "BloomFilter_init bits_per_key = Inr p" by (rule p)
  next
    fix keys :: "std_string list" and n :: c_int
    assume "0 \<le> sint n \<and> sint n \<le> int (length keys)"
    then show "\<exists>A. CreateFilter_string p keys n dst = Inr (dst @ A @ [ucast (k_m p)])
                 \<and> (\<forall>pos < 8 * length A. bit_at A pos \<longleftrightarrow>
                       (\<exists>i j. i < nat (sint n) \<and> j < unat (k_m p)
                          \<and> pos = probe_position (BloomHash_string (keys ! i)) j
                                    (8 * length A)))"
      unfolding CreateFilter_string_def using b assms(2) by (rule CreateFilter_bits)
  next
    fix keys :: "uint64_t list" and n :: c_int
    assume "0 \<le> sint n \<and> sint n \<le> int (length keys)"
    then show "\<exists>A. CreateFilter_uint64 p keys n dst = Inr (dst @ A @ [ucast (k_m p)])
                 \<and> (\<forall>pos < 8 * length A. bit_at A pos \<longleftrightarrow>
                       (\<exists>i j. i < nat (sint n) \<and> j < unat (k_m p)
                          \<and> pos = probe_position (BloomHash_uint64 (keys ! i)) j
                                    (8 * length A)))"
      unfolding CreateFilter_uint64_def using b assms(2) by (rule CreateFilter_bits)
  qed
qed

theorem construction_sets_probe_bits_witness:
  "BloomFilter_init 10 = Inr \<lparr>bits_per_key_m = 10, k_m = 6\<rparr>
   \<and> CreateFilter_string \<lparr>bits_per_key_m = 10, k_m = 6\<rparr> [[97]] 1 []
        = Inr [8, 16, 32, 64, 128, 0, 1, 0, 6]
   \<and> map (\<lambda>j. probe_position (BloomHash_string [97]) j 64) [0, 1, 2, 3, 4, 5]
        = [48, 39, 30, 21, 12, 3]
   \<and> bit_at [8, 16, 32, 64, 128, 0, 1, 0] 3
   \<and> \<not> bit_at [8, 16, 32, 64, 128, 0, 1, 0] 4"
proof -
  let ?p = "\<lparr>bits_per_key_m = 10, k_m = 6\<rparr>"
  let ?A = "[8, 16, 32, 64, 128, 0, 1, 0] :: byte list"
  have h: "0 \<le> sint (10 :: c_int)" "length ([] :: byte list) < 2 ^ 63" by simp_all
  have i: "BloomFilter_init 10 = Inr ?p"
    by (simp add: BloomFilter_init_def double_to_size_t_def mul_0_69_def round_to_double_def
        double_0_69_def compute_floorlog)
  have c: "CreateFilter_string ?p [[97]] 1 [] = Inr [8, 16, 32, 64, 128, 0, 1, 0, 6]"
    by code_simp
  have hh: "BloomHash_string [97] = 678337968"
    by code_simp
  have rr: "word_rotr 17 (678337968 :: uint32_t) = 1322783799"
    by (simp add: rotate_right_17_eq [symmetric] rotate_right_17_def)
  have pp: "map (\<lambda>j. probe_position (BloomHash_string [97]) j 64) [0, 1, 2, 3, 4, 5]
        = [48, 39, 30, 21, 12, 3]"
    by (simp add: probe_position_def hh rr)
  from construction_sets_probe_bits [OF h] i
  have "\<And>keys n. 0 \<le> sint n \<and> sint n \<le> int (length keys) \<Longrightarrow>
              (\<exists>A. CreateFilter_string ?p keys n [] = Inr ([] @ A @ [ucast (k_m ?p)])
                 \<and> (\<forall>pos < 8 * length A. bit_at A pos \<longleftrightarrow>
                       (\<exists>i j. i < nat (sint n) \<and> j < unat (k_m ?p)
                          \<and> pos = probe_position (BloomHash_string (keys ! i)) j
                                    (8 * length A))))"
    by auto
  from this [of 1 "[[97]]"] c
  obtain A where A: "A @ [ucast (k_m ?p)] = ?A @ [6]"
    and bits: "\<forall>pos < 8 * length A. bit_at A pos \<longleftrightarrow>
                       (\<exists>i j. i < nat (sint (1 :: c_int)) \<and> j < unat (k_m ?p)
                          \<and> pos = probe_position (BloomHash_string ([[97]] ! i)) j
                                    (8 * length A))"
    by auto
  from A have AA: "A = ?A" by (simp only: append1_eq_conv)
  have six: "unat (k_m ?p) = 6" by simp
  have len: "8 * length ?A = 64" by simp
  have n1: "nat (sint (1 :: c_int)) = 1" by simp
  have char: "\<And>pos. pos < 64 \<Longrightarrow> bit_at ?A pos \<longleftrightarrow>
                 (\<exists>i j. i < (1 :: nat) \<and> j < (6 :: nat)
                      \<and> pos = probe_position (BloomHash_string ([[97]] ! i)) j 64)"
    using bits unfolding AA six len n1 by blast
  have p5: "probe_position (BloomHash_string [97]) 5 64 = 3"
    by (simp add: probe_position_def hh rr)
  have "\<exists>i j. i < (1 :: nat) \<and> j < (6 :: nat)
           \<and> 3 = probe_position (BloomHash_string ([[97]] ! i)) j 64"
    by (intro exI [of _ 0] exI [of _ 5]) (simp add: p5)
  then have b3: "bit_at ?A 3" using char [of 3] by simp
  have upt6: "[0..<6] = [0, 1, 2, 3, 4, 5]" by code_simp
  have no4: "probe_position (BloomHash_string [97]) j 64 \<noteq> 4" if "j < 6" for j
  proof -
    from that have "j \<in> set [0..<6]" by simp
    then have "j \<in> set [0, 1, 2, 3, 4, 5]" by (simp only: upt6)
    then have "probe_position (BloomHash_string [97]) j 64
                 \<in> set (map (\<lambda>j. probe_position (BloomHash_string [97]) j 64)
                          [0, 1, 2, 3, 4, 5])"
      by (simp only: set_map) (rule imageI)
    then have "probe_position (BloomHash_string [97]) j 64 \<in> set [48, 39, 30, 21, 12, 3]"
      by (simp only: pp)
    then show ?thesis by auto
  qed
  have "\<not> (\<exists>i j. i < (1 :: nat) \<and> j < (6 :: nat)
           \<and> 4 = probe_position (BloomHash_string ([[97]] ! i)) j 64)"
    using no4 by fastforce
  then have b4: "\<not> bit_at ?A 4" using char [of 4] by simp
  from i c pp b3 b4 show ?thesis by (intro conjI)
qed

text \<open>
  Claim C8 (construction only appends).  For every policy created from a
  non-negative \<open>bits_per_key\<close>, every destination buffer (shorter than \<open>2^63\<close>
  bytes), every list of keys of either type and every count \<open>0 \<le> n\<close> of keys
  taken from it: construction returns a buffer that is at least as long as the
  destination and begins with the bytes the destination held.
\<close>

theorem construction_preserves_prefix:
  assumes "0 \<le> sint bits_per_key" and "length dst < 2 ^ 63"
  shows "\<exists>p. BloomFilter_init bits_per_key = Inr p \<and>
           (\<forall>keys n. 0 \<le> sint n \<and> sint n \<le> int (length keys) \<longrightarrow>
              (\<exists>f. CreateFilter_string p keys n dst = Inr f
                 \<and> length dst \<le> length f \<and> take (length dst) f = dst)) \<and>
           (\<forall>keys n. 0 \<le> sint n \<and> sint n \<le> int (length keys) \<longrightarrow>
              (\<exists>f. CreateFilter_uint64 p keys n dst = Inr f
                 \<and> length dst \<le> length f \<and> take (length dst) f = dst))"
proof -
  from policy_nonneg [OF assms(1)]
  obtain p where p: "BloomFilter_init bits_per_key = Inr p"
      and b: "unat (bits_per_key_m p) < 2 ^ 31"
    by blast
  show ?thesis
  proof (intro exI [of _ p] conjI allI impI)
    show "BloomFilter_init bits_per_key = Inr p" by (rule p)
  next
    fix keys :: "std_string list" and n :: c_int
    assume "0 \<le> sint n \<and> sint n \<le> int (length keys)"
    then show "\<exists>f. CreateFilter_string p keys n dst = Inr f
                 \<and> length dst \<le> length f \<and> take (length dst) f = dst"
      unfolding CreateFilter_string_def using b assms(2) by (rule CreateFilter_frame)
  next
    fix keys :: "uint64_t list" and n :: c_int
    assume "0 \<le> sint n \<and> sint n \<le> int (length keys)"
    then show "\<exists>f. CreateFilter_uint64 p keys n dst = Inr f
                 \<and> length dst \<le> length f \<and> take (length dst) f = dst"
      unfolding CreateFilter_uint64_def using b assms(2) by (rule CreateFilter_frame)
  qed
qed

theorem construction_preserves_prefix_witness:
  "BloomFilter_init 10 = Inr \<lparr>bits_per_key_m = 10, k_m = 6\<rparr>
   \<and> CreateFilter_string \<lparr>bits_per_key_m = 10, k_m = 6\<rparr> [[97], [98]] 2 [7, 9]
        = Inr [7, 9, 24, 48, 96, 192, 128, 1, 3, 0, 6]
   \<and> take (length [7, 9 :: byte]) [7, 9, 24, 48, 96, 192, 128, 1, 3, 0, 6 :: byte] = [7, 9]
   \<and> CreateFilter_uint64 \<lparr>bits_per_key_m = 10, k_m = 6\<rparr> [1, 2] 2 [7, 9]
        = Inr [7, 9, 1, 64, 0, 0, 1, 64, 0, 0, 6]
   \<and> take (length [7, 9 :: byte]) [7, 9, 1, 64, 0, 0, 1, 64, 0, 0, 6 :: byte] = [7, 9]"
proof -
  let ?p = "\<lparr>bits_per_key_m = 10, k_m = 6\<rparr>"
  have h: "0 \<le> sint (10 :: c_int)" "length [7, 9 :: byte] < 2 ^ 63" by simp_all
  have i: "BloomFilter_init 10 = Inr ?p"
    by (simp add: BloomFilter_init_def double_to_size_t_def mul_0_69_def round_to_double_def
        double_0_69_def compute_floorlog)
  have c1: "CreateFilter_string ?p [[97], [98]] 2 [7, 9]
              = Inr [7, 9, 24, 48, 96, 192, 128, 1, 3, 0, 6]"
    by code_simp
  have c2: "CreateFilter_uint64 ?p [1, 2] 2 [7, 9] = Inr [7, 9, 1, 64, 0, 0, 1, 64, 0, 0, 6]"
    by code_simp
  from construction_preserves_prefix [OF h] i
  have s: "\<And>keys n. 0 \<le> sint n \<and> sint n \<le> int (length keys) \<Longrightarrow>
              (\<exists>f. CreateFilter_string ?p keys n [7, 9] = Inr f
                 \<and> length [7, 9 :: byte] \<le> length f \<and> take (length [7, 9 :: byte]) f = [7, 9])"
    and u: "\<And>keys n. 0 \<le> sint n \<and> sint n \<le> int (length keys) \<Longrightarrow>
              (\<exists>f. CreateFilter_uint64 ?p keys n [7, 9] = Inr f
                 \<and> length [7, 9 :: byte] \<le> length f \<and> take (length [7, 9 :: byte]) f = [7, 9])"
    by auto
  have t1: "take (length [7, 9 :: byte]) [7, 9, 24, 48, 96, 192, 128, 1, 3, 0, 6 :: byte] = [7, 9]"
    using s [of 2 "[[97], [98]]"] c1 by simp
  have t2: "take (length [7, 9 :: byte]) [7, 9, 1, 64, 0, 0, 1, 64, 0, 0, 6 :: byte] = [7, 9]"
    using u [of 2 "[1, 2]"] c2 by simp
  from i c1 t1 c2 t2 show ?thesis by (intro conjI)
qed

text \<open>
  Claim C9 (probe count zero).  For every key of either type and every filter of
  at least two bytes (and of a size a \<open>size_t\<close> can hold) whose last byte is 0,
  the query returns \<open>true\<close>: the probe loop runs zero times.  This holds for
  every bit array, the all-zero one included.
\<close>

theorem zero_probe_count_matches:
  assumes "2 \<le> length bloom_filter" and "length bloom_filter < 2 ^ 64"
      and "last bloom_filter = 0"
  shows "KeyMayMatch_string p skey bloom_filter = Inr True
       \<and> KeyMayMatch_uint64 p ukey bloom_filter = Inr True"
  unfolding KeyMayMatch_string_def KeyMayMatch_uint64_def
  using assms by (simp add: KeyMayMatch_zero_probes)

theorem zero_probe_count_matches_witness:
  "KeyMayMatch_string \<lparr>bits_per_key_m = 10, k_m = 6\<rparr> [97] [0, 0, 0, 0, 0, 0, 0, 0, 0]
     = Inr True
   \<and> KeyMayMatch_uint64 \<lparr>bits_per_key_m = 10, k_m = 6\<rparr> 1 [0, 0, 0, 0, 0, 0, 0, 0, 0]
     = Inr True"
  using zero_probe_count_matches [of "[0, 0, 0, 0, 0, 0, 0, 0, 0]"
          "\<lparr>bits_per_key_m = 10, k_m = 6\<rparr>" "[97]" 1]
  by simp

text \<open>
  Claim C10 (the query stays inside the bit array).  For every key of either
  type and every filter of \<open>len \<ge> 2\<close> bytes (at most \<open>2^61\<close>, so that
  \<open>(len - 1) * 8\<close> is a \<open>size_t\<close>), the query returns a result, never the
  out-of-bounds or division-by-zero error; and for every hash value the index
  \<open>bitpos / 8\<close> computed from \<open>bits = (len - 1) * 8\<close> is at most \<open>len - 2\<close>.
  The probes are made when the last byte is at most 30; with a larger last
  byte (a negative \<open>char\<close> included) the query reads no bit at all, so the
  statement needs no hypothesis on that byte.
\<close>

theorem query_accesses_in_bounds:
  assumes "2 \<le> length bloom_filter" and "length bloom_filter \<le> 2 ^ 61"
  shows "(\<exists>b. KeyMayMatch_string p skey bloom_filter = Inr b)
       \<and> (\<exists>b. KeyMayMatch_uint64 p ukey bloom_filter = Inr b)
       \<and> (\<forall>h. unat (probe_bitpos h ((string_size bloom_filter - 1) * 8) div 8)
                 \<le> length bloom_filter - 2)"
proof (intro conjI allI)
  show "\<exists>b. KeyMayMatch_string p skey bloom_filter = Inr b"
    unfolding KeyMayMatch_string_def using assms by (rule KeyMayMatch_total)
  show "\<exists>b. KeyMayMatch_uint64 p ukey bloom_filter = Inr b"
    unfolding KeyMayMatch_uint64_def using assms by (rule KeyMayMatch_total)
  fix h
  show "unat (probe_bitpos h ((string_size bloom_filter - 1) * 8) div 8)
          \<le> length bloom_filter - 2"
    using assms(1,2) by (rule probe_index_bound)
qed

theorem query_accesses_in_bounds_witness:
  "(\<exists>b. KeyMayMatch_string \<lparr>bits_per_key_m = 10, k_m = 6\<rparr> [120]
           [24, 48, 96, 192, 128, 1, 3, 0, 6] = Inr b)
   \<and> (\<exists>b. KeyMayMatch_uint64 \<lparr>bits_per_key_m = 10, k_m = 6\<rparr> 1
           [24, 48, 96, 192, 128, 1, 3, 0, 6] = Inr b)
   \<and> unat (probe_bitpos 0xFFFFFFFF
              ((string_size [24, 48, 96, 192, 128, 1, 3, 0, 6] - 1) * 8) div 8)
         \<le> length [24, 48, 96, 192, 128, 1, 3, 0, 6 :: byte] - 2"
proof -
  let ?f = "[24, 48, 96, 192, 128, 1, 3, 0, 6] :: byte list"
  have h: "2 \<le> length ?f" "length ?f \<le> 2 ^ 61"
    by simp_all
  from query_accesses_in_bounds [OF h, of "\<lparr>bits_per_key_m = 10, k_m = 6\<rparr>" "[120]" 1]
  show ?thesis by blast
qed

end
